theory Spec2Isabelle
  imports Main "HOL-Library.Multiset"
begin

section \<open>Values of the host language\<close>

text \<open>
  The module \<^verbatim>\<open>src/messaging/messaging.js\<close> is a JavaScript module with three
  module variables (\<^verbatim>\<open>seed\<close>, \<^verbatim>\<open>emitterObj\<close>, \<^verbatim>\<open>listenerObj\<close>) and four exported
  functions. Payloads are opaque JavaScript values; the model keeps the few shapes the
  code inspects (property access on a message, rendering inside a template literal).
\<close>

datatype jsval =
    JUndefined
  | JNull
  | JBool bool
  | JNum int
  | JStr string
  | JObj "(string \<times> jsval) list"

text \<open>Exceptions: \<^verbatim>\<open>new Error(msg)\<close> and the \<^verbatim>\<open>TypeError\<close> of a member access on
  \<^verbatim>\<open>null\<close>/\<^verbatim>\<open>undefined\<close>.\<close>

datatype error = Error string | TypeError

text \<open>External objects (event emitters, callbacks, inbound event handles) are known to
  the module only by identity.\<close>

type_synonym obj = nat
type_synonym cb = nat
type_synonym chan = string

text \<open>An inbound event handle as \<^verbatim>\<open>sendMessageReply\<close> sees it: absent
  (\<^verbatim>\<open>undefined\<close>/\<^verbatim>\<open>null\<close>), or an object that may expose a \<^verbatim>\<open>reply\<close> method.\<close>

datatype evh = NoEvent | Event nat bool

fun has_reply :: "evh \<Rightarrow> bool" where
  "has_reply NoEvent = False"
| "has_reply (Event _ b) = b"

text \<open>The \<^verbatim>\<open>timeout\<close> parameter is documented as \<^verbatim>\<open>number?\<close>: it is absent,
  \<^verbatim>\<open>null\<close>, \<^verbatim>\<open>NaN\<close> or a number of milliseconds (modelled as an integer).\<close>

datatype timeout_arg = TUndefined | TNull | TNaN | TNum int

fun truthy :: "timeout_arg \<Rightarrow> bool" where
  "truthy (TNum n) = (n \<noteq> 0)"
| "truthy _ = False"

text \<open>\<^verbatim>\<open>timeout < 0\<close>: \<^verbatim>\<open>null\<close> converts to 0, \<^verbatim>\<open>undefined\<close> and \<^verbatim>\<open>NaN\<close>
  compare false.\<close>

fun lt_zero :: "timeout_arg \<Rightarrow> bool" where
  "lt_zero (TNum n) = (n < 0)"
| "lt_zero _ = False"

subsection \<open>Number rendering in template literals\<close>

definition digit_char :: "nat \<Rightarrow> char" where
  "digit_char d = ''0123456789'' ! (d mod 10)"

fun dec :: "nat \<Rightarrow> string" where
  "dec n = (if n < 10 then [digit_char n] else dec (n div 10) @ [digit_char (n mod 10)])"

declare dec.simps [simp del]

definition dec_int :: "int \<Rightarrow> string" where
  "dec_int i = (if i < 0 then CHR ''-'' # dec (nat (- i)) else dec (nat i))"

fun js_to_string :: "jsval \<Rightarrow> string" where
  "js_to_string JUndefined = ''undefined''"
| "js_to_string JNull = ''null''"
| "js_to_string (JBool b) = (if b then ''true'' else ''false'')"
| "js_to_string (JNum n) = dec_int n"
| "js_to_string (JStr s) = s"
| "js_to_string (JObj _) = ''[object Object]''"

text \<open>Member access \<^verbatim>\<open>v.k\<close>: a \<^verbatim>\<open>TypeError\<close> on \<^verbatim>\<open>undefined\<close> and \<^verbatim>\<open>null\<close>,
  \<^verbatim>\<open>undefined\<close> for a missing property.\<close>

fun get_prop :: "jsval \<Rightarrow> string \<Rightarrow> error + jsval" where
  "get_prop JUndefined k = Inl TypeError"
| "get_prop JNull k = Inl TypeError"
| "get_prop (JObj kvs) k = Inr (case map_of kvs k of Some v \<Rightarrow> v | None \<Rightarrow> JUndefined)"
| "get_prop _ k = Inr JUndefined"

section \<open>Module state and its environment\<close>

text \<open>
  Handlers are the two arrow functions the module registers: the one of
  \<^verbatim>\<open>initMessaging\<close> (line 28) closes over \<^verbatim>\<open>callback\<close>; the one of
  \<^verbatim>\<open>sendMessageRequest\<close> (line 94) closes over the constants \<^verbatim>\<open>message.id\<close>,
  \<^verbatim>\<open>action\<close>, \<^verbatim>\<open>infinite\<close> and, by reference, over the variable \<^verbatim>\<open>timer\<close> and the
  promise of that call. A call is identified by the number of its promise.
\<close>

datatype handler =
    IncomingAction cb
  | ReplyListener nat string string bool

text \<open>The timer callback (line 85) of call \<open>p\<close>, closing over \<^verbatim>\<open>message.id\<close> and
  \<^verbatim>\<open>action\<close>.\<close>

datatype timeout_fn = TimeoutFn nat string string

text \<open>A promise is pending, fulfilled with a value, or rejected: with the value handed
  to \<^verbatim>\<open>reject\<close>, or with the exception its executor threw.\<close>

datatype reason = Value jsval | Exception error

datatype outcome = Pending | Fulfilled jsval | Rejected reason

text \<open>Every call the module makes on a collaborator, in the order it makes them.\<close>

datatype effect =
    ListenerOn obj chan
  | ListenerOnce obj chan
  | RemoveAllListeners obj chan
  | EmitterSend obj chan jsval
  | EventReply nat string jsval
  | SetTimeout nat timeout_arg
  | ClearTimeout nat
  | ConsoleWarn string
  | ResolveCall nat jsval
  | RejectCall nat jsval
  | CallbackCall cb jsval jsval evh jsval
  | Uncaught error

type_synonym registration = "obj \<times> chan \<times> bool \<times> handler"

record world =
  seed :: nat
  emitterObj :: "obj option"
  listenerObj :: "obj option"
  listeners :: "registration list"
  timers :: "(nat \<times> timeout_arg \<times> timeout_fn) list"
  next_handle :: nat
  timer_var :: "nat \<Rightarrow> nat option"
  promise :: "nat \<Rightarrow> outcome"
  next_promise :: nat
  issued :: "string list"
  trace :: "effect list"

text \<open>The module as loaded: \<^verbatim>\<open>seed = 1\<close>, both objects \<^verbatim>\<open>null\<close>, nothing registered.\<close>

definition fresh_world :: world where
  "fresh_world = \<lparr> seed = 1, emitterObj = None, listenerObj = None, listeners = [],
     timers = [], next_handle = 1, timer_var = (\<lambda>_. None), promise = (\<lambda>_. Pending),
     next_promise = 0, issued = [], trace = [] \<rparr>"

definition emit_effect :: "effect \<Rightarrow> world \<Rightarrow> world" where
  "emit_effect e w = w\<lparr>trace := trace w @ [e]\<rparr>"

text \<open>A call either returns, or throws an exception in the state it has reached by
  then.\<close>

type_synonym result = "(error \<times> world) + world"

definition thrown :: "result \<Rightarrow> error option" where
  "thrown r = (case r of Inl (err, _) \<Rightarrow> Some err | Inr _ \<Rightarrow> None)"

definition state_after :: "result \<Rightarrow> world" where
  "state_after r = (case r of Inl (_, w) \<Rightarrow> w | Inr w \<Rightarrow> w)"

section \<open>initMessaging\<close>

definition AlreadyInitialized :: error where
  "AlreadyInitialized = Error ''Already initialized''"

definition InvalidParameters :: error where
  "InvalidParameters = Error ''Invalid parameters''"

definition initialized :: "world \<Rightarrow> bool" where
  "initialized w = (emitterObj w \<noteq> None)"

text \<open>Lines 17-31. \<open>None\<close> stands for a \<^verbatim>\<open>null\<close>/\<^verbatim>\<open>undefined\<close> argument; the local
  \<^verbatim>\<open>emitter = emitter || listener\<close> is computed before the parameter check, as in the
  source. Both \<^verbatim>\<open>throw\<close> statements come before the first assignment to a module
  variable, so they throw in the state the call started in.\<close>

definition initMessaging ::
  "obj option \<Rightarrow> obj option \<Rightarrow> cb option \<Rightarrow> world \<Rightarrow> result" where
  "initMessaging listener emitter callback w =
     (if emitterObj w \<noteq> None then Inl (AlreadyInitialized, w)
      else
        let emitter' = (if emitter \<noteq> None then emitter else listener) in
        (case (listener, callback) of
           (Some l, Some c) \<Rightarrow>
             Inr (emit_effect (ListenerOn l ''message-request'')
                   (w\<lparr>listenerObj := listener, emitterObj := emitter',
                      listeners := listeners w @ [(l, ''message-request'', False, IncomingAction c)]\<rparr>))
         | _ \<Rightarrow> Inl (InvalidParameters, w)))"


section \<open>Collaborators: promises, timers, event emitters\<close>

text \<open>A promise settles once: \<^verbatim>\<open>resolve\<close> and \<^verbatim>\<open>reject\<close> on a settled promise do
  nothing. The calls themselves are recorded, so that a second call would show.\<close>

definition settle :: "nat \<Rightarrow> outcome \<Rightarrow> world \<Rightarrow> world" where
  "settle p out w = (if promise w p = Pending then w\<lparr>promise := (promise w)(p := out)\<rparr> else w)"

definition resolve :: "nat \<Rightarrow> jsval \<Rightarrow> world \<Rightarrow> world" where
  "resolve p v w = settle p (Fulfilled v) (emit_effect (ResolveCall p v) w)"

definition reject :: "nat \<Rightarrow> jsval \<Rightarrow> world \<Rightarrow> world" where
  "reject p v w = settle p (Rejected (Value v)) (emit_effect (RejectCall p v) w)"

text \<open>\<^verbatim>\<open>setTimeout\<close> arms a timer and returns its handle; \<^verbatim>\<open>clearTimeout\<close> disarms
  it. When an armed timer expires is the environment's choice (event \<open>Fire\<close> below).\<close>

definition setTimeout :: "timeout_fn \<Rightarrow> timeout_arg \<Rightarrow> world \<Rightarrow> nat \<times> world" where
  "setTimeout f t w =
     (let h = next_handle w in
      (h, emit_effect (SetTimeout h t) (w\<lparr>timers := timers w @ [(h, t, f)], next_handle := h + 1\<rparr>)))"

definition disarm :: "nat \<Rightarrow> world \<Rightarrow> world" where
  "disarm h w = w\<lparr>timers := filter (\<lambda>(h', _). h' \<noteq> h) (timers w)\<rparr>"

definition clearTimeout :: "nat \<Rightarrow> world \<Rightarrow> world" where
  "clearTimeout h w = emit_effect (ClearTimeout h) (disarm h w)"

text \<open>The listener contract: \<^verbatim>\<open>once\<close> registers a handler that is removed when it is
  invoked, \<^verbatim>\<open>removeAllListeners\<close> removes every handler of a channel.\<close>

definition on_channel :: "obj \<Rightarrow> chan \<Rightarrow> registration \<Rightarrow> bool" where
  "on_channel l c r = (fst r = l \<and> fst (snd r) = c)"

definition once :: "obj \<Rightarrow> chan \<Rightarrow> handler \<Rightarrow> world \<Rightarrow> world" where
  "once l c h w = emit_effect (ListenerOnce l c) (w\<lparr>listeners := listeners w @ [(l, c, True, h)]\<rparr>)"

definition removeAllListeners :: "obj \<Rightarrow> chan \<Rightarrow> world \<Rightarrow> world" where
  "removeAllListeners l c w =
     emit_effect (RemoveAllListeners l c)
       (w\<lparr>listeners := filter (\<lambda>r. \<not> on_channel l c r) (listeners w)\<rparr>)"

section \<open>sendMessageReply\<close>

text \<open>Lines 48-57. With no usable event handle the reply goes to \<^verbatim>\<open>emitterObj\<close>, a
  \<^verbatim>\<open>TypeError\<close> while that is still \<^verbatim>\<open>null\<close>.\<close>

definition sendMessageReply :: "string \<Rightarrow> jsval \<Rightarrow> evh \<Rightarrow> world \<Rightarrow> result" where
  "sendMessageReply messageId data event w =
     (if event \<noteq> NoEvent \<and> has_reply event then
        (case event of
           Event i _ \<Rightarrow> Inr (emit_effect (EventReply i messageId data) w)
         | NoEvent \<Rightarrow> Inr w)
      else
        (case emitterObj w of
           None \<Rightarrow> Inl (TypeError, w)
         | Some e \<Rightarrow> Inr (emit_effect (EmitterSend e messageId data) w)))"

section \<open>sendMessageRequest\<close>

text \<open>\<^verbatim>\<open>seed\<close> is a JavaScript number, an IEEE double: \<^verbatim>\<open>seed++\<close> is exact below
  \<open>2^53\<close>, and at \<open>2^53\<close> the sum rounds back to \<open>2^53\<close>. Starting from 1 the
  counter takes no other values.\<close>

definition js_incr :: "nat \<Rightarrow> nat" where
  "js_incr n = (if n < 2 ^ 53 then n + 1 else n)"

text \<open>Line 76: \<^verbatim>\<open>`msg-${seed++}-${Date.now()}`\<close>, with the clock reading as an input.\<close>

definition message_id :: "nat \<Rightarrow> int \<Rightarrow> string" where
  "message_id s now = ''msg-'' @ dec s @ ''-'' @ dec_int now"

definition next_id :: "int \<Rightarrow> world \<Rightarrow> string \<times> world" where
  "next_id now w =
     (let i = message_id (seed w) now in
      (i, w\<lparr>seed := js_incr (seed w), issued := issued w @ [i]\<rparr>))"

definition quote :: string where
  "quote = [CHR 0x27]"

text \<open>Line 88 and line 97.\<close>

definition warn_time_out :: "string \<Rightarrow> string \<Rightarrow> string" where
  "warn_time_out mid action = ''['' @ mid @ ''] '' @ quote @ action @ quote @ '' Time out''"

definition warn_late_reply :: "string \<Rightarrow> string \<Rightarrow> string \<Rightarrow> string" where
  "warn_late_reply mid action rid =
     ''['' @ mid @ ''] '' @ quote @ action @ quote @ '' Timed out reply ['' @ rid @ '']''"

text \<open>Lines 68-73: the flags and the default.\<close>

definition is_oneWay :: "timeout_arg \<Rightarrow> bool" where
  "is_oneWay t = (t = TNum 0)"

definition is_infinite :: "timeout_arg \<Rightarrow> bool" where
  "is_infinite t = (truthy t \<and> lt_zero t)"

definition effective_timeout :: "timeout_arg \<Rightarrow> timeout_arg" where
  "effective_timeout t =
     (if \<not> is_oneWay t \<and> \<not> is_infinite t \<and> \<not> truthy t
      then (if truthy t then t else TNum 2000)
      else t)"

text \<open>Lines 85-90, the timer callback.\<close>

definition timeout_callback :: "timeout_fn \<Rightarrow> world \<Rightarrow> world" where
  "timeout_callback f w =
     (case f of TimeoutFn p mid action \<Rightarrow>
        let w1 = w\<lparr>timer_var := (timer_var w)(p := None)\<rparr> in
        (case listenerObj w1 of
           None \<Rightarrow> emit_effect (Uncaught TypeError) w1
         | Some l \<Rightarrow>
             reject p (JStr ''Timed out'')
               (emit_effect (ConsoleWarn (warn_time_out mid action))
                 (removeAllListeners l mid w1))))"

text \<open>Lines 94-106, the reply handler \<^verbatim>\<open>(_, reply) => ...\<close>; \<open>forever\<close> is
  the source's \<^verbatim>\<open>infinite\<close>.\<close>

definition reply_listener ::
  "nat \<Rightarrow> string \<Rightarrow> string \<Rightarrow> bool \<Rightarrow> jsval \<Rightarrow> world \<Rightarrow> error + world" where
  "reply_listener p mid action forever reply w =
     (if \<not> forever \<and> timer_var w p = None then
        (case get_prop reply ''id'' of
           Inl err \<Rightarrow> Inl err
         | Inr rid \<Rightarrow>
             Inr (emit_effect (ConsoleWarn (warn_late_reply mid action (js_to_string rid))) w))
      else
        Inr (resolve p reply
              (case timer_var w p of Some h \<Rightarrow> clearTimeout h w | None \<Rightarrow> w)))"

text \<open>Lines 28-30, the handler of the request channel. The callback is code of the
  caller: that it is invoked, and with what, is recorded; the calls it makes on the
  module in turn are events of their own.\<close>

definition incoming_action :: "cb \<Rightarrow> evh \<Rightarrow> jsval \<Rightarrow> world \<Rightarrow> error + world" where
  "incoming_action c event message w =
     (case get_prop message ''action'' of
        Inl err \<Rightarrow> Inl err
      | Inr a \<Rightarrow>
          (case get_prop message ''data'' of
             Inl err \<Rightarrow> Inl err
           | Inr d \<Rightarrow>
               (case get_prop message ''id'' of
                  Inl err \<Rightarrow> Inl err
                | Inr i \<Rightarrow> Inr (emit_effect (CallbackCall c a d event i) w))))"

fun invoke :: "handler \<Rightarrow> evh \<Rightarrow> jsval \<Rightarrow> world \<Rightarrow> error + world" where
  "invoke (IncomingAction c) ev m w = incoming_action c ev m w"
| "invoke (ReplyListener p mid action forever) ev m w = reply_listener p mid action forever m w"

text \<open>Line 109, \<^verbatim>\<open>emitterObj.send('message-request', message)\<close>. The emitter is a
  collaborator: what its \<^verbatim>\<open>send\<close> does with the message is not the module's, but
  whether the call returns or throws is visible to the executor. A transport says, for
  each call of \<^verbatim>\<open>send\<close>, whether it returns (\<open>None\<close>) or throws. The emitter contract
  of the module is the \<open>conforming\<close> transport, whose \<^verbatim>\<open>send\<close> always returns.\<close>

type_synonym transport = "obj \<Rightarrow> chan \<Rightarrow> jsval \<Rightarrow> error option"

definition conforming :: transport where
  "conforming e c m = None"

definition refusing :: "error \<Rightarrow> transport" where
  "refusing err e c m = Some err"

definition send_request :: "transport \<Rightarrow> jsval \<Rightarrow> world \<Rightarrow> result" where
  "send_request tr message w =
     (case emitterObj w of
        None \<Rightarrow> Inl (TypeError, w)
      | Some e \<Rightarrow>
          (case tr e ''message-request'' message of
             None \<Rightarrow> Inr (emit_effect (EmitterSend e ''message-request'' message) w)
           | Some err \<Rightarrow> Inl (err, emit_effect (EmitterSend e ''message-request'' message) w)))"

text \<open>Lines 81-110, the executor of the promise. An exception leaves the effects made
  so far in place.\<close>

text \<open>Line 85, \<^verbatim>\<open>timer = setTimeout(..., timeout)\<close>.\<close>

definition arm :: "nat \<Rightarrow> string \<Rightarrow> string \<Rightarrow> timeout_arg \<Rightarrow> world \<Rightarrow> world" where
  "arm p mid action timeout w =
     (case setTimeout (TimeoutFn p mid action) timeout w of
        (h, w') \<Rightarrow> w'\<lparr>timer_var := (timer_var w')(p := Some h)\<rparr>)"

definition executor ::
  "transport \<Rightarrow> nat \<Rightarrow> string \<Rightarrow> string \<Rightarrow> jsval \<Rightarrow> bool \<Rightarrow> bool \<Rightarrow> timeout_arg \<Rightarrow> world
     \<Rightarrow> result" where
  "executor tr p mid action message oneWay forever timeout w =
     (let w1 = w\<lparr>timer_var := (timer_var w)(p := None)\<rparr>;
          w2 = (if \<not> oneWay \<and> \<not> forever then arm p mid action timeout w1 else w1)
      in
        if \<not> oneWay then
          (case listenerObj w2 of
             None \<Rightarrow> Inl (TypeError, w2)
           | Some l \<Rightarrow>
               send_request tr message (once l mid (ReplyListener p mid action forever) w2))
        else send_request tr message w2)"

definition request_msg :: "string \<Rightarrow> string \<Rightarrow> jsval \<Rightarrow> jsval" where
  "request_msg mid action data =
     JObj [(''id'', JStr mid), (''action'', JStr action), (''data'', data)]"

definition new_promise :: "world \<Rightarrow> nat \<times> world" where
  "new_promise w =
     (let p = next_promise w in
      (p, w\<lparr>next_promise := p + 1, promise := (promise w)(p := Pending)\<rparr>))"

text \<open>Lines 67-111, on a given transport. The promise constructor turns an exception of
  the executor into a rejection.\<close>

definition sendMessageRequest_via ::
  "transport \<Rightarrow> string \<Rightarrow> jsval \<Rightarrow> timeout_arg \<Rightarrow> int \<Rightarrow> world \<Rightarrow> nat \<times> world" where
  "sendMessageRequest_via tr action data timeout now w =
     (let oneWay = is_oneWay timeout;
          forever = is_infinite timeout;
          timeout' = effective_timeout timeout
      in
        case next_id now w of (mid, w0) \<Rightarrow>
        let message = request_msg mid action data in
        case new_promise w0 of (p, w1) \<Rightarrow>
          (p, case executor tr p mid action message oneWay forever timeout' w1 of
                Inl (err, w') \<Rightarrow> settle p (Rejected (Exception err)) w'
              | Inr w' \<Rightarrow> w'))"

text \<open>The function on the transport the module is written for.\<close>

definition sendMessageRequest ::
  "string \<Rightarrow> jsval \<Rightarrow> timeout_arg \<Rightarrow> int \<Rightarrow> world \<Rightarrow> nat \<times> world" where
  "sendMessageRequest action data timeout now w =
     sendMessageRequest_via conforming action data timeout now w"

text \<open>Lines 38-40.\<close>

definition sendMessageOneWay :: "string \<Rightarrow> jsval \<Rightarrow> int \<Rightarrow> world \<Rightarrow> nat \<times> world" where
  "sendMessageOneWay action data now w = sendMessageRequest action data (TNum 0) now w"

section \<open>The event loop\<close>

text \<open>
  The module runs on one event loop: each event below runs to completion before the
  next. Which events happen, and in which order, is the environment's choice; in
  particular a timer may expire at any moment after it was armed and before it is
  cleared, and anything may be delivered on any channel at any time. What holds of every
  sequence of events holds of the sequences a real clock and a real transport produce.

  An emitter delivering a message on a channel calls the handlers registered there, in
  order of registration; a \<^verbatim>\<open>once\<close> handler is removed just before it runs, and an
  exception of a handler ends the delivery.
\<close>

fun deliver :: "registration list \<Rightarrow> evh \<Rightarrow> jsval \<Rightarrow> world \<Rightarrow> world" where
  "deliver [] ev m w = w"
| "deliver (r # rs) ev m w =
     (let w1 = (if fst (snd (snd r)) then w\<lparr>listeners := remove1 r (listeners w)\<rparr> else w) in
      case invoke (snd (snd (snd r))) ev m w1 of
        Inl err \<Rightarrow> emit_effect (Uncaught err) w1
      | Inr w2 \<Rightarrow> deliver rs ev m w2)"

definition emit :: "obj \<Rightarrow> chan \<Rightarrow> evh \<Rightarrow> jsval \<Rightarrow> world \<Rightarrow> world" where
  "emit l c ev m w = deliver (filter (on_channel l c) (listeners w)) ev m w"

text \<open>An armed timer expires: it is disarmed and its callback runs.\<close>

definition fire :: "nat \<Rightarrow> world \<Rightarrow> world" where
  "fire h w =
     (case find (\<lambda>(h', _). h' = h) (timers w) of
        None \<Rightarrow> w
      | Some (_, _, f) \<Rightarrow> timeout_callback f (disarm h w))"

text \<open>Everything that can happen to the module: a call of one of its four functions, a
  message delivered by an emitter, a timer expiring. After a call that throws, the module
  goes on from the state in which the exception was thrown.\<close>

datatype event =
    CallInit "obj option" "obj option" "cb option"
  | CallRequest string jsval timeout_arg int
  | CallOneWay string jsval int
  | CallReply string jsval evh
  | Emit obj chan evh jsval
  | Fire nat

fun step :: "world \<Rightarrow> event \<Rightarrow> world" where
  "step w (CallInit l e c) = state_after (initMessaging l e c w)"
| "step w (CallRequest a d t now) = snd (sendMessageRequest a d t now w)"
| "step w (CallOneWay a d now) = snd (sendMessageOneWay a d now w)"
| "step w (CallReply i d ev) = state_after (sendMessageReply i d ev w)"
| "step w (Emit l c ev m) = emit l c ev m w"
| "step w (Fire h) = fire h w"

definition run :: "world \<Rightarrow> event list \<Rightarrow> world" where
  "run w evs = foldl step w evs"

text \<open>The module after \<^verbatim>\<open>initMessaging(1, undefined, 7)\<close>, for the examples.\<close>

definition started :: world where
  "started = step fresh_world (CallInit (Some 1) None (Some 7))"

section \<open>Observations on a state\<close>

text \<open>How often \<^verbatim>\<open>resolve\<close> or \<^verbatim>\<open>reject\<close> of call \<open>p\<close> has been invoked.\<close>

fun settles :: "nat \<Rightarrow> effect \<Rightarrow> bool" where
  "settles p (ResolveCall q v) = (q = p)"
| "settles p (RejectCall q v) = (q = p)"
| "settles p _ = False"

definition calls :: "nat \<Rightarrow> world \<Rightarrow> nat" where
  "calls p w = length (filter (settles p) (trace w))"

text \<open>The reply listeners of call \<open>p\<close> that are registered, and the armed timers of
  call \<open>p\<close>: together its Pending Request.\<close>

fun listens_for :: "nat \<Rightarrow> registration \<Rightarrow> bool" where
  "listens_for p (l, c, b, ReplyListener q mid a f) = (q = p)"
| "listens_for p (l, c, b, IncomingAction k) = False"

definition waiting :: "nat \<Rightarrow> world \<Rightarrow> nat" where
  "waiting p w = length (filter (listens_for p) (listeners w))"

fun tf_promise :: "timeout_fn \<Rightarrow> nat" where
  "tf_promise (TimeoutFn p mid a) = p"

fun tf_id :: "timeout_fn \<Rightarrow> string" where
  "tf_id (TimeoutFn p mid a) = mid"

definition untimed :: "nat \<Rightarrow> world \<Rightarrow> bool" where
  "untimed p w = (\<forall>x\<in>set (timers w). tf_promise (snd (snd x)) \<noteq> p)"

definition idle :: "nat \<Rightarrow> world \<Rightarrow> bool" where
  "idle p w = (waiting p w = 0 \<and> untimed p w)"

fun handles :: "nat \<Rightarrow> handler \<Rightarrow> bool" where
  "handles p (ReplyListener q mid a f) = (q = p)"
| "handles p (IncomingAction k) = False"

definition on_id :: "nat \<Rightarrow> string \<Rightarrow> world \<Rightarrow> bool" where
  "on_id p mid w = (\<forall>r\<in>set (listeners w). listens_for p r \<longrightarrow> fst (snd r) = mid)"

text \<open>The state in which the executor of a call starts: identifier issued, promise
  created, \<^verbatim>\<open>timer = null\<close>.\<close>

definition prepared :: "int \<Rightarrow> world \<Rightarrow> world" where
  "prepared now w =
     w\<lparr>seed := js_incr (seed w), issued := issued w @ [message_id (seed w) now],
       next_promise := next_promise w + 1,
       promise := (promise w)(next_promise w := Pending),
       timer_var := (timer_var w)(next_promise w := None)\<rparr>"

section \<open>Invariant of an initialized module\<close>

definition inv_objs :: "obj \<Rightarrow> world \<Rightarrow> bool" where
  "inv_objs l w = (listenerObj w = Some l \<and> emitterObj w \<noteq> None)"

definition inv_once :: "world \<Rightarrow> bool" where
  "inv_once w = (\<forall>p. waiting p w + calls p w \<le> 1)"

definition inv_listeners :: "obj \<Rightarrow> world \<Rightarrow> bool" where
  "inv_listeners l w =
     (\<forall>r\<in>set (listeners w).
        (\<forall>p. listens_for p r \<longrightarrow> fst r = l \<and> fst (snd (snd r)) \<and> p < next_promise w)
        \<and> (\<forall>q mid a. snd (snd (snd r)) = ReplyListener q mid a False \<longrightarrow> timer_var w q \<noteq> None)
        \<and> (\<forall>k. snd (snd (snd r)) = IncomingAction k \<longrightarrow> fst (snd r) = ''message-request''))"

definition inv_timers :: "world \<Rightarrow> bool" where
  "inv_timers w =
     (\<forall>x\<in>set (timers w).
        calls (tf_promise (snd (snd x))) w = 0
        \<and> timer_var w (tf_promise (snd (snd x))) = Some (fst x)
        \<and> tf_promise (snd (snd x)) < next_promise w
        \<and> fst x < next_handle w
        \<and> on_id (tf_promise (snd (snd x))) (tf_id (snd (snd x))) w)"

definition inv_promise :: "world \<Rightarrow> bool" where
  "inv_promise w =
     (\<forall>p. (calls p w = 0 \<longrightarrow> promise w p = Pending)
        \<and> (\<forall>v. ResolveCall p v \<in> set (trace w) \<longrightarrow> promise w p = Fulfilled v)
        \<and> (\<forall>v. RejectCall p v \<in> set (trace w) \<longrightarrow> promise w p = Rejected (Value v)))"

definition inv_fresh :: "world \<Rightarrow> bool" where
  "inv_fresh w = (\<forall>p. next_promise w \<le> p \<longrightarrow> calls p w = 0)"

definition sound :: "obj \<Rightarrow> world \<Rightarrow> bool" where
  "sound l w =
     (inv_objs l w \<and> inv_once w \<and> inv_listeners l w \<and> inv_timers w \<and> inv_promise w
      \<and> inv_fresh w \<and> distinct (map fst (timers w)))"



text \<open>The identifiers issued so far are those of the counter values \<open>1, 2, ...\<close>, capped
  where the counter stops; \<open>ts k\<close> is the clock reading of the \<open>k\<close>-th of them.\<close>

definition stamped :: "(nat \<Rightarrow> int) \<Rightarrow> world \<Rightarrow> bool" where
  "stamped ts w =
     (seed w = min (length (issued w) + 1) (2 ^ 53)
      \<and> (\<forall>k<length (issued w). issued w ! k = message_id (min (k + 1) (2 ^ 53)) (ts k)))"

declare deliver.simps(2) [simp del]

section \<open>Preservation of the invariant\<close>

lemma state_after_simps [simp]:
  "state_after (Inl (err, w)) = w" "state_after (Inr w) = w"
  by (simp_all add: state_after_def)

lemma thrown_simps [simp]:
  "thrown (Inl (err, w)) = Some err" "thrown (Inr w) = None"
  by (simp_all add: thrown_def)

lemmas inv_defs = inv_objs_def inv_once_def inv_listeners_def inv_timers_def inv_promise_def
  inv_fresh_def on_id_def

lemma calls_emit_effect [simp]:
  "calls p (emit_effect e w) = calls p w + (if settles p e then 1 else 0)"
  by (simp add: calls_def emit_effect_def)

lemma waiting_emit_effect [simp]: "waiting p (emit_effect e w) = waiting p w"
  by (simp add: waiting_def emit_effect_def)

lemma untimed_emit_effect [simp]: "untimed p (emit_effect e w) = untimed p w"
  by (simp add: untimed_def emit_effect_def)

lemma idle_emit_effect [simp]: "idle p (emit_effect e w) = idle p w"
  by (simp add: idle_def)

lemma settles_cases: "settles p e = ((\<exists>v. e = ResolveCall p v) \<or> (\<exists>v. e = RejectCall p v))"
  by (cases e) auto

lemma sound_emit_effect:
  assumes "sound l w" "\<And>p. \<not> settles p e"
  shows "sound l (emit_effect e w)"
proof -
  have c: "\<And>p. calls p (emit_effect e w) = calls p w" using assms(2) by simp
  have s: "\<And>p v. e \<noteq> ResolveCall p v" "\<And>p v. e \<noteq> RejectCall p v"
    using assms(2) by (auto simp: settles_cases)
  have t: "\<And>p v. (ResolveCall p v \<in> set (trace (emit_effect e w))) = (ResolveCall p v \<in> set (trace w))"
     "\<And>p v. (RejectCall p v \<in> set (trace (emit_effect e w))) = (RejectCall p v \<in> set (trace w))"
    using s by (auto simp: emit_effect_def)
  have f: "listenerObj (emit_effect e w) = listenerObj w" "emitterObj (emit_effect e w) = emitterObj w"
    "listeners (emit_effect e w) = listeners w" "timers (emit_effect e w) = timers w"
    "next_handle (emit_effect e w) = next_handle w" "timer_var (emit_effect e w) = timer_var w"
    "promise (emit_effect e w) = promise w" "next_promise (emit_effect e w) = next_promise w"
    by (simp_all add: emit_effect_def)
  show ?thesis using assms(1) unfolding sound_def inv_defs c t f waiting_emit_effect
    by simp
qed

lemma filter_length_mono:
  "mset ls \<subseteq># mset ks \<Longrightarrow> length (filter P ls) \<le> length (filter P ks)"
proof -
  assume "mset ls \<subseteq># mset ks"
  then have "filter_mset P (mset ls) \<subseteq># filter_mset P (mset ks)"
    by (rule multiset_filter_mono)
  then have "size (filter_mset P (mset ls)) \<le> size (filter_mset P (mset ks))"
    by (rule size_mset_mono)
  then show ?thesis by (simp flip: mset_filter)
qed

lemma waiting_sub:
  "mset ls \<subseteq># mset (listeners w) \<Longrightarrow> waiting p (w\<lparr>listeners := ls\<rparr>) \<le> waiting p w"
  by (simp add: waiting_def filter_length_mono)

lemma sound_listeners_sub:
  assumes "sound l w" "mset ls \<subseteq># mset (listeners w)"
  shows "sound l (w\<lparr>listeners := ls\<rparr>)"
proof -
  have sub: "set ls \<subseteq> set (listeners w)" using set_mset_mono [OF assms(2)] by simp
  have wt: "\<And>p. waiting p (w\<lparr>listeners := ls\<rparr>) \<le> waiting p w"
    using assms(2) by (rule waiting_sub)
  have c: "\<And>p. calls p (w\<lparr>listeners := ls\<rparr>) = calls p w" by (simp add: calls_def)
  have "inv_once (w\<lparr>listeners := ls\<rparr>)"
    using assms(1) wt unfolding sound_def inv_once_def c by (meson add_le_mono1 le_trans)
  moreover have "inv_listeners l (w\<lparr>listeners := ls\<rparr>)"
    using assms(1) sub unfolding sound_def inv_listeners_def by auto
  moreover have "inv_timers (w\<lparr>listeners := ls\<rparr>)"
    using assms(1) sub unfolding sound_def inv_timers_def on_id_def c by auto
  moreover have "inv_objs l (w\<lparr>listeners := ls\<rparr>) \<and> inv_promise (w\<lparr>listeners := ls\<rparr>)
      \<and> inv_fresh (w\<lparr>listeners := ls\<rparr>)"
    using assms(1) unfolding sound_def inv_objs_def inv_promise_def inv_fresh_def c by simp
  ultimately show ?thesis using assms(1) by (simp add: sound_def)
qed

lemma sound_disarm: "sound l w \<Longrightarrow> sound l (disarm h w)"
  unfolding sound_def inv_defs disarm_def
  by (auto simp: calls_def waiting_def distinct_map_filter)

lemma untimed_disarm:
  "inv_timers w \<Longrightarrow> timer_var w p = Some h \<Longrightarrow> untimed p (disarm h w)"
  unfolding inv_timers_def untimed_def disarm_def by auto

lemma untimed_no_var:
  "inv_timers w \<Longrightarrow> timer_var w p = None \<Longrightarrow> untimed p w"
  unfolding inv_timers_def untimed_def by auto

lemma not_waiting:
  "waiting p w = 0 \<Longrightarrow> r \<in> set (listeners w) \<Longrightarrow> \<not> listens_for p r"
  by (auto simp: waiting_def filter_empty_conv)

lemma sound_timer_var:
  assumes "sound l w" "untimed p w" "x = None \<longrightarrow> waiting p w = 0"
  shows "sound l (w\<lparr>timer_var := (timer_var w)(p := x)\<rparr>)"
proof -
  let ?w = "w\<lparr>timer_var := (timer_var w)(p := x)\<rparr>"
  have c: "\<And>q. calls q ?w = calls q w" by (simp add: calls_def)
  have wt: "\<And>q. waiting q ?w = waiting q w" by (simp add: waiting_def)
  have "inv_listeners l ?w"
    unfolding inv_listeners_def
  proof (intro ballI conjI allI impI)
    fix r q mid a
    assume r: "r \<in> set (listeners ?w)" and h: "snd (snd (snd r)) = ReplyListener q mid a False"
    have lf: "listens_for q r" using h by (cases r) auto
    have "q = p \<Longrightarrow> x \<noteq> None" using not_waiting [of p w r] assms(3) lf r by auto
    moreover have "timer_var w q \<noteq> None"
      using assms(1) r h unfolding sound_def inv_listeners_def by auto
    ultimately show "timer_var ?w q \<noteq> None" by auto
  qed (use assms(1) in \<open>auto simp: sound_def inv_listeners_def\<close>)
  moreover have "inv_timers ?w"
    using assms(1,2) unfolding sound_def inv_timers_def on_id_def c untimed_def by auto
  moreover have "inv_once ?w \<and> inv_promise ?w \<and> inv_fresh ?w \<and> inv_objs l ?w"
    using assms(1) unfolding sound_def inv_once_def inv_promise_def inv_fresh_def inv_objs_def c wt
    by simp
  ultimately show ?thesis using assms(1) by (simp add: sound_def)
qed

lemma sound_settle:
  assumes "sound l w" "idle p w" "calls p w = 0" "p < next_promise w"
    "e = ResolveCall p v \<and> out = Fulfilled v \<or> e = RejectCall p v \<and> out = Rejected (Value v)"
  shows "sound l (settle p out (emit_effect e w))"
proof -
  let ?w = "settle p out (emit_effect e w)"
  have pend: "promise w p = Pending" using assms(1,3) by (simp add: sound_def inv_promise_def)
  have w': "?w = w\<lparr>trace := trace w @ [e], promise := (promise w)(p := out)\<rparr>"
    using pend by (simp add: settle_def emit_effect_def)
  have c: "\<And>q. calls q ?w = calls q w + (if q = p then 1 else 0)"
    unfolding w' using assms(5) by (auto simp: calls_def)
  have wt: "\<And>q. waiting q ?w = waiting q w" unfolding w' by (simp add: waiting_def)
  have none: "\<And>u. \<not> settles p u \<or> u \<notin> set (trace w)"
    using assms(3) by (auto simp: calls_def filter_empty_conv)
  have "inv_once ?w"
    using assms(1,2,3) unfolding sound_def inv_once_def c wt idle_def by auto
  moreover have "inv_listeners l ?w"
    using assms(1) unfolding sound_def inv_listeners_def w' by simp
  moreover have "inv_timers ?w"
    using assms(1,2) unfolding sound_def inv_timers_def on_id_def c idle_def untimed_def
    by (auto simp: w')
  moreover have "inv_promise ?w"
    unfolding inv_promise_def c
  proof (intro allI conjI impI)
    fix q assume "calls q w + (if q = p then 1 else 0) = 0"
    then show "promise ?w q = Pending"
      using assms(1) by (auto simp: w' sound_def inv_promise_def split: if_splits)
  next
    fix q u assume "ResolveCall q u \<in> set (trace ?w)"
    then show "promise ?w q = Fulfilled u"
      using assms(1,5) none [of "ResolveCall q u"]
      by (auto simp: w' sound_def inv_promise_def)
  next
    fix q u assume "RejectCall q u \<in> set (trace ?w)"
    then show "promise ?w q = Rejected (Value u)"
      using assms(1,5) none [of "RejectCall q u"]
      by (auto simp: w' sound_def inv_promise_def)
  qed
  moreover have "inv_fresh ?w"
    using assms(1,4) unfolding sound_def inv_fresh_def c by (auto simp: w')
  moreover have "inv_objs l ?w \<and> distinct (map fst (timers ?w))"
    using assms(1) unfolding sound_def inv_objs_def by (simp add: w')
  ultimately show ?thesis by (simp add: sound_def)
qed


lemma sound_resolve:
  "sound l w \<Longrightarrow> idle p w \<Longrightarrow> calls p w = 0 \<Longrightarrow> p < next_promise w \<Longrightarrow> sound l (resolve p v w)"
  unfolding resolve_def by (rule sound_settle) auto

lemma sound_reject:
  "sound l w \<Longrightarrow> idle p w \<Longrightarrow> calls p w = 0 \<Longrightarrow> p < next_promise w \<Longrightarrow> sound l (reject p v w)"
  unfolding reject_def by (rule sound_settle) auto

lemma listeners_settle [simp]: "listeners (settle p out w) = listeners w"
  by (simp add: settle_def)

lemma listeners_emit_effect [simp]: "listeners (emit_effect e w) = listeners w"
  by (simp add: emit_effect_def)

lemma sound_clearTimeout: "sound l w \<Longrightarrow> sound l (clearTimeout h w)"
  unfolding clearTimeout_def by (rule sound_emit_effect) (auto intro: sound_disarm)

lemma sound_reply_listener:
  assumes "sound l w" "waiting p w = 0" "calls p w = 0" "p < next_promise w"
    "reply_listener p mid a f m w = Inr w'"
  shows "sound l w' \<and> listeners w' = listeners w"
proof (cases "\<not> f \<and> timer_var w p = None")
  case True
  then obtain rid where "w' = emit_effect (ConsoleWarn (warn_late_reply mid a (js_to_string rid))) w"
    using assms(5) by (auto simp: reply_listener_def split: sum.splits)
  then show ?thesis using assms(1) by (simp add: sound_emit_effect)
next
  case False
  define w0 where "w0 = (case timer_var w p of Some h \<Rightarrow> clearTimeout h w | None \<Rightarrow> w)"
  have w': "w' = resolve p m w0"
    using assms(5) False unfolding w0_def reply_listener_def by auto
  have it: "inv_timers w" using assms(1) by (simp add: sound_def)
  have s0: "sound l w0"
    unfolding w0_def using assms(1) by (auto split: option.splits intro: sound_clearTimeout)
  have u0: "untimed p w0"
    unfolding w0_def using untimed_disarm [OF it] untimed_no_var [OF it]
    by (auto split: option.splits simp: clearTimeout_def)
  have r0: "waiting p w0 = 0 \<and> calls p w0 = 0 \<and> next_promise w0 = next_promise w
      \<and> listeners w0 = listeners w"
    unfolding w0_def using assms(2,3)
    by (auto split: option.splits simp: clearTimeout_def disarm_def waiting_def calls_def emit_effect_def)
  have "sound l (resolve p m w0)"
    using s0 u0 r0 assms(4) by (intro sound_resolve) (auto simp: idle_def)
  then show ?thesis using r0 by (simp add: w' resolve_def)
qed

lemma inv_listenersD:
  "inv_listeners l w \<Longrightarrow> (ob, c, b, h) \<in> set (listeners w) \<Longrightarrow> listens_for p (ob, c, b, h)
     \<Longrightarrow> ob = l \<and> b \<and> p < next_promise w"
  unfolding inv_listeners_def by fastforce

lemma inv_listeners_var:
  "inv_listeners l w \<Longrightarrow> (ob, c, b, ReplyListener q mid a False) \<in> set (listeners w)
     \<Longrightarrow> timer_var w q \<noteq> None"
  unfolding inv_listeners_def by fastforce

lemma sound_incoming_action:
  "sound l w \<Longrightarrow> incoming_action c ev m w = Inr w' \<Longrightarrow> sound l w' \<and> listeners w' = listeners w"
  by (auto simp: incoming_action_def split: sum.splits intro: sound_emit_effect)

lemma filter_remove1_length:
  "r \<in> set xs \<Longrightarrow> P r \<Longrightarrow> Suc (length (filter P (remove1 r xs))) = length (filter P xs)"
  by (induction xs) auto

lemma sound_deliver:
  "sound l w \<Longrightarrow> mset rs \<subseteq># mset (listeners w) \<Longrightarrow> sound l (deliver rs ev m w)"
proof (induction rs arbitrary: w)
  case Nil
  then show ?case by simp
next
  case (Cons r rs)
  obtain ob c b h where r: "r = (ob, c, b, h)" by (cases r) auto
  have rin: "r \<in> set (listeners w)"
    using set_mset_mono [OF Cons.prems(2)] by auto
  define w1 where "w1 = (if b then w\<lparr>listeners := remove1 r (listeners w)\<rparr> else w)"
  have s1: "sound l w1"
    unfolding w1_def using Cons.prems(1) by (auto intro: sound_listeners_sub)
  have sub1: "mset rs \<subseteq># mset (listeners w1)"
  proof (cases b)
    case True
    have "mset rs \<subseteq># mset (listeners w) - {#r#}"
      using Cons.prems(2) by (simp add: insert_subset_eq_iff)
    then show ?thesis using True by (simp add: w1_def)
  next
    case False
    have "mset rs \<subseteq># mset (listeners w)"
      using Cons.prems(2) mset_subset_eq_insertD [of r "mset rs" "mset (listeners w)"]
      by (simp add: subset_mset.less_imp_le)
    then show ?thesis using False by (simp add: w1_def)
  qed
  have step: "deliver (r # rs) ev m w =
      (case invoke h ev m w1 of Inl err \<Rightarrow> emit_effect (Uncaught err) w1
       | Inr w2 \<Rightarrow> deliver rs ev m w2)"
    by (cases b) (simp_all add: deliver.simps(2) r w1_def Let_def cong: sum.case_cong)
  show ?case
  proof (cases "invoke h ev m w1")
    case (Inl err)
    then show ?thesis using s1 by (simp add: step sound_emit_effect)
  next
    case (Inr w2)
    have "sound l w2 \<and> listeners w2 = listeners w1"
    proof (cases h)
      case (IncomingAction k)
      then show ?thesis using Inr s1 by (auto dest: sound_incoming_action)
    next
      case (ReplyListener p mid a f)
      have lf: "listens_for p r" by (simp add: r ReplyListener)
      have b: "b" and pn: "p < next_promise w"
        using Cons.prems(1) rin lf inv_listenersD [of l w ob c b h p] unfolding sound_def r by auto
      have "waiting p w \<noteq> 0"
        using rin lf by (auto simp: waiting_def filter_empty_conv)
      moreover have "waiting p w + calls p w \<le> 1"
        using Cons.prems(1) by (simp add: sound_def inv_once_def)
      ultimately have one: "waiting p w = 1" and c0: "calls p w = 0" by auto
      have "Suc (waiting p w1) = waiting p w"
        using filter_remove1_length [of r "listeners w" "listens_for p"] rin lf b
        by (simp add: w1_def waiting_def)
      then have w0: "waiting p w1 = 0" using one by simp
      have "calls p w1 = 0" "p < next_promise w1"
        using c0 pn by (auto simp: w1_def calls_def)
      then show ?thesis
        using sound_reply_listener [OF s1 w0] Inr ReplyListener by simp
    qed
    then show ?thesis using Cons.IH [of w2] sub1 Inr by (simp add: step)
  qed
qed

lemma sound_emit: "sound l w \<Longrightarrow> sound l (emit ob c ev m w)"
  unfolding emit_def by (rule sound_deliver) simp_all


lemma waiting_removeAll:
  assumes "\<forall>r\<in>set (listeners w). listens_for p r \<longrightarrow> on_channel l c r"
  shows "waiting p (removeAllListeners l c w) = 0"
  using assms by (auto simp: waiting_def removeAllListeners_def filter_empty_conv)

lemma sound_removeAll: "sound l w \<Longrightarrow> sound l (removeAllListeners k c w)"
  unfolding removeAllListeners_def
  by (rule sound_emit_effect) (auto intro: sound_listeners_sub)

lemma sound_timeout_callback:
  assumes "sound l w" "(h, t, TimeoutFn p mid a) \<in> set (timers w)"
  shows "sound l (timeout_callback (TimeoutFn p mid a) (disarm h w))"
proof -
  have it: "inv_timers w" and il: "inv_listeners l w" and lo: "listenerObj w = Some l"
    using assms(1) by (simp_all add: sound_def inv_objs_def)
  have tp: "calls p w = 0" "timer_var w p = Some h" "p < next_promise w" "on_id p mid w"
    using it assms(2) unfolding inv_timers_def by force+
  have ch: "\<forall>r\<in>set (listeners w). listens_for p r \<longrightarrow> on_channel l mid r"
    using tp(4) il unfolding inv_listeners_def on_channel_def on_id_def by blast
  define ls where "ls = filter (\<lambda>r. \<not> on_channel l mid r) (listeners w)"
  define w1 where "w1 = (disarm h w)\<lparr>listeners := ls\<rparr>"
  define w2 where "w2 = w1\<lparr>timer_var := (timer_var w1)(p := None)\<rparr>"
  define w3 where "w3 = emit_effect (ConsoleWarn (warn_time_out mid a))
    (emit_effect (RemoveAllListeners l mid) w2)"
  have u0: "untimed p (disarm h w)" using untimed_disarm [OF it tp(2)] .
  have s1: "sound l w1"
    unfolding w1_def ls_def using assms(1)
    by (intro sound_listeners_sub sound_disarm) (simp_all add: disarm_def)
  have wt1: "waiting p w1 = 0"
    using ch by (auto simp: w1_def ls_def waiting_def filter_empty_conv)
  have u1: "untimed p w1" using u0 by (simp add: w1_def untimed_def)
  have s2: "sound l w2" unfolding w2_def using s1 u1 wt1 by (intro sound_timer_var) auto
  have s3: "sound l w3" unfolding w3_def using s2 by (intro sound_emit_effect) auto
  have wt: "waiting p w3 = 0" using wt1 by (simp add: w3_def w2_def waiting_def)
  have u3: "untimed p w3" using u1 by (simp add: w3_def w2_def untimed_def emit_effect_def)
  have c3: "calls p w3 = 0" "p < next_promise w3"
    using tp(1,3) by (simp_all add: w3_def w2_def w1_def emit_effect_def disarm_def calls_def)
  have "timeout_callback (TimeoutFn p mid a) (disarm h w) = reject p (JStr ''Timed out'') w3"
    using lo
    by (cases w)
      (simp add: timeout_callback_def w3_def w2_def w1_def ls_def disarm_def Let_def
        removeAllListeners_def emit_effect_def)
  then show ?thesis using sound_reject [OF s3 _ c3] wt u3 by (simp add: idle_def)
qed

lemma find_handle:
  "find (\<lambda>(h', _). h' = h) ts = Some x \<Longrightarrow> x \<in> set ts \<and> fst x = h"
  by (induction ts) (auto split: if_splits)

lemma sound_fire: "sound l w \<Longrightarrow> sound l (fire h w)"
proof -
  assume s: "sound l w"
  show ?thesis
  proof (cases "find (\<lambda>(h', _). h' = h) (timers w)")
    case None
    then show ?thesis using s by (simp add: fire_def)
  next
    case (Some x)
    obtain h' t p mid a where x: "x = (h', t, TimeoutFn p mid a)"
      by (cases x) (metis timeout_fn.exhaust)
    have "(h, t, TimeoutFn p mid a) \<in> set (timers w)"
      using find_handle [OF Some] by (auto simp: x)
    from sound_timeout_callback [OF s this] show ?thesis
      by (simp add: fire_def Some x)
  qed
qed


lemma sound_next_id: "sound l w \<Longrightarrow> sound l (snd (next_id now w))"
  unfolding sound_def inv_defs next_id_def
  by (simp add: Let_def calls_def waiting_def)

lemma new_promise_props:
  assumes "sound l w" "new_promise w = (p, w1)"
  shows "sound l w1 \<and> idle p w1 \<and> calls p w1 = 0 \<and> p < next_promise w1"
proof -
  have p: "p = next_promise w" and w1: "w1 = w\<lparr>next_promise := p + 1, promise := (promise w)(p := Pending)\<rparr>"
    using assms(2) by (auto simp: new_promise_def Let_def)
  have c0: "calls p w = 0" using assms(1) p by (simp add: sound_def inv_fresh_def)
  have c: "\<And>q. calls q w1 = calls q w" by (simp add: w1 calls_def)
  have wt: "\<And>q. waiting q w1 = waiting q w" by (simp add: w1 waiting_def)
  have none: "\<And>u. \<not> settles p u \<or> u \<notin> set (trace w)"
    using c0 by (auto simp: calls_def filter_empty_conv)
  have "waiting p w = 0"
    using assms(1) p unfolding sound_def inv_listeners_def waiting_def
    by (auto simp: filter_empty_conv)
  moreover have "untimed p w"
    using assms(1) p unfolding sound_def inv_timers_def untimed_def by auto
  ultimately have i: "idle p w1" by (simp add: idle_def wt) (simp add: untimed_def w1)
  have "inv_once w1" using assms(1) unfolding sound_def inv_once_def c wt by simp
  moreover have "inv_listeners l w1"
    using assms(1) unfolding sound_def inv_listeners_def by (fastforce simp: w1 p)
  moreover have "inv_timers w1"
    using assms(1) unfolding sound_def inv_timers_def on_id_def c by (fastforce simp: w1 p)
  moreover have "inv_promise w1"
    using assms(1) none [of "ResolveCall p _"] none [of "RejectCall p _"]
    unfolding sound_def inv_promise_def c by (auto simp: w1)
  moreover have "inv_fresh w1"
    using assms(1) unfolding sound_def inv_fresh_def c by (auto simp: w1 p)
  moreover have "inv_objs l w1 \<and> distinct (map fst (timers w1))"
    using assms(1) unfolding sound_def inv_objs_def by (simp add: w1)
  ultimately show ?thesis using i c0 c by (simp add: sound_def) (simp add: w1)
qed

lemma arm_eq:
  "arm p mid a t w = w\<lparr>timers := timers w @ [(next_handle w, t, TimeoutFn p mid a)],
      next_handle := next_handle w + 1, trace := trace w @ [SetTimeout (next_handle w) t],
      timer_var := (timer_var w)(p := Some (next_handle w))\<rparr>"
  by (simp add: arm_def setTimeout_def Let_def emit_effect_def)

lemma sound_arm:
  assumes "sound l w" "idle p w" "calls p w = 0" "p < next_promise w"
  shows "sound l (arm p mid a t w)"
proof -
  let ?w = "arm p mid a t w"
  have c: "\<And>q. calls q ?w = calls q w" by (simp add: arm_eq calls_def)
  have wt: "\<And>q. waiting q ?w = waiting q w" by (simp add: arm_eq waiting_def)
  have u: "\<forall>x\<in>set (timers w). tf_promise (snd (snd x)) \<noteq> p"
    using assms(2) by (simp add: idle_def untimed_def)
  have nl: "\<forall>r\<in>set (listeners w). \<not> listens_for p r"
    using assms(2) by (simp add: idle_def waiting_def filter_empty_conv)
  have "inv_once ?w" using assms(1) unfolding sound_def inv_once_def c wt by simp
  moreover have "inv_listeners l ?w"
    using assms(1) unfolding sound_def inv_listeners_def by (auto simp: arm_eq)
  moreover have "inv_timers ?w"
    using assms(1,3,4) u nl unfolding sound_def inv_timers_def on_id_def c
    by (auto simp: arm_eq less_Suc_eq)
  moreover have "inv_promise ?w"
    using assms(1) unfolding sound_def inv_promise_def c by (auto simp: arm_eq)
  moreover have "inv_fresh ?w"
    using assms(1) unfolding sound_def inv_fresh_def c by (auto simp: arm_eq)
  moreover have "inv_objs l ?w" using assms(1) unfolding sound_def inv_objs_def by (simp add: arm_eq)
  moreover have "distinct (map fst (timers ?w))"
    using assms(1) unfolding sound_def inv_timers_def by (auto simp: arm_eq)
  ultimately show ?thesis by (simp add: sound_def)
qed

lemma sound_once:
  assumes "sound l w" "waiting p w = 0" "calls p w = 0" "p < next_promise w"
    "\<forall>x\<in>set (timers w). tf_promise (snd (snd x)) = p \<longrightarrow> tf_id (snd (snd x)) = mid"
    "\<not> f \<longrightarrow> timer_var w p \<noteq> None"
  shows "sound l (once l mid (ReplyListener p mid a f) w)"
proof -
  let ?w = "once l mid (ReplyListener p mid a f) w"
  have eq: "?w = w\<lparr>listeners := listeners w @ [(l, mid, True, ReplyListener p mid a f)],
      trace := trace w @ [ListenerOnce l mid]\<rparr>"
    by (simp add: once_def emit_effect_def)
  have c: "\<And>q. calls q ?w = calls q w" by (simp add: eq calls_def)
  have wt: "\<And>q. waiting q ?w = waiting q w + (if q = p then 1 else 0)"
    by (simp add: eq waiting_def)
  have "inv_once ?w" using assms(1,2,3) unfolding sound_def inv_once_def c wt by auto
  moreover have "inv_listeners l ?w"
    using assms(1,4,6) unfolding sound_def inv_listeners_def by (auto simp: eq)
  moreover have "inv_timers ?w"
    using assms(1,5) unfolding sound_def inv_timers_def on_id_def c by (auto simp: eq)
  moreover have "inv_promise ?w"
    using assms(1) unfolding sound_def inv_promise_def c by (auto simp: eq)
  moreover have "inv_fresh ?w"
    using assms(1) unfolding sound_def inv_fresh_def c by (auto simp: eq)
  moreover have "inv_objs l ?w \<and> distinct (map fst (timers ?w))"
    using assms(1) unfolding sound_def inv_objs_def by (simp add: eq)
  ultimately show ?thesis by (simp add: sound_def)
qed


lemma not_both: "is_oneWay t \<Longrightarrow> \<not> is_infinite t"
  by (simp add: is_oneWay_def is_infinite_def)

lemma sendMessageRequest_eq:
  assumes "listenerObj w = Some l" "emitterObj w = Some e"
  shows "sendMessageRequest a d t now w =
    (let p = next_promise w; mid = message_id (seed w) now; w1 = prepared now w;
         w2 = (if is_oneWay t then w1
               else once l mid (ReplyListener p mid a (is_infinite t))
                 (if is_infinite t then w1 else arm p mid a (effective_timeout t) w1))
     in (p, emit_effect (EmitterSend e ''message-request'' (request_msg mid a d)) w2))"
  using assms
  by (simp add: sendMessageRequest_def sendMessageRequest_via_def conforming_def next_id_def
      new_promise_def executor_def Let_def
      send_request_def prepared_def request_msg_def once_def emit_effect_def arm_eq not_both)

lemma sound_prepared:
  assumes "sound l w"
  shows "sound l (prepared now w) \<and> idle (next_promise w) (prepared now w)
    \<and> calls (next_promise w) (prepared now w) = 0
    \<and> next_promise w < next_promise (prepared now w)"
proof -
  obtain p w1 where np: "new_promise (snd (next_id now w)) = (p, w1)" by force
  have p: "p = next_promise w" using np by (auto simp: new_promise_def next_id_def Let_def)
  have s: "sound l w1 \<and> idle p w1 \<and> calls p w1 = 0 \<and> p < next_promise w1"
    using new_promise_props [OF sound_next_id [OF assms] np] .
  have eq: "prepared now w = w1\<lparr>timer_var := (timer_var w1)(p := None)\<rparr>"
    using np by (auto simp: new_promise_def next_id_def Let_def prepared_def)
  have "sound l (prepared now w)"
    unfolding eq using s by (intro sound_timer_var) (auto simp: idle_def)
  then show ?thesis using s unfolding eq p [symmetric]
    by (simp add: idle_def untimed_def waiting_def calls_def)
qed

lemma sound_sendMessageRequest:
  assumes "sound l w"
  shows "sound l (snd (sendMessageRequest a d t now w))"
proof -
  obtain e where lo: "listenerObj w = Some l" and eo: "emitterObj w = Some e"
    using assms by (auto simp: sound_def inv_objs_def)
  define p where "p = next_promise w"
  define mid where "mid = message_id (seed w) now"
  define w1 where "w1 = prepared now w"
  have s1: "sound l w1" "idle p w1" "calls p w1 = 0" "p < next_promise w1"
    using sound_prepared [OF assms, of now] by (simp_all add: w1_def p_def)
  define w1' where "w1' = (if is_infinite t then w1 else arm p mid a (effective_timeout t) w1)"
  have s1': "sound l w1'"
    unfolding w1'_def using s1 by (auto intro: sound_arm)
  have r1': "waiting p w1' = 0" "calls p w1' = 0" "p < next_promise w1'"
      "\<forall>x\<in>set (timers w1'). tf_promise (snd (snd x)) = p \<longrightarrow> tf_id (snd (snd x)) = mid"
      "\<not> is_infinite t \<longrightarrow> timer_var w1' p \<noteq> None"
    using s1(2,3,4)
    by (auto simp: w1'_def arm_eq idle_def untimed_def waiting_def calls_def)
  define w2 where "w2 = (if is_oneWay t then w1 else once l mid (ReplyListener p mid a (is_infinite t)) w1')"
  have s2: "sound l w2"
    unfolding w2_def using s1(1) sound_once [OF s1' r1'] by auto
  have "snd (sendMessageRequest a d t now w) =
      emit_effect (EmitterSend e ''message-request'' (request_msg mid a d)) w2"
    by (simp add: sendMessageRequest_eq [OF lo eo] Let_def w2_def w1'_def w1_def p_def mid_def)
  then show ?thesis using s2 by (simp add: sound_emit_effect)
qed

lemma initMessaging_sound_unchanged:
  "sound l w \<Longrightarrow> step w (CallInit a b c) = w"
  by (simp add: initMessaging_def sound_def inv_objs_def)

lemma sound_sendMessageReply:
  "sound l w \<Longrightarrow> sound l (step w (CallReply i d ev))"
  by (cases ev)
    (auto simp: sendMessageReply_def sound_def [of l w] inv_objs_def
      intro!: sound_emit_effect simp: sound_def [symmetric] split: option.splits)

lemma sound_step: "sound l w \<Longrightarrow> sound l (step w ev)"
proof (cases ev)
  case (CallInit a b c)
  assume "sound l w"
  then show ?thesis by (simp only: CallInit initMessaging_sound_unchanged)
next
  case (CallReply i d e)
  assume "sound l w"
  then show ?thesis unfolding CallReply by (rule sound_sendMessageReply)
qed (simp_all add: sound_sendMessageRequest sendMessageOneWay_def sound_emit sound_fire)

lemma sound_run: "sound l w \<Longrightarrow> sound l (run w evs)"
  unfolding run_def by (induction evs arbitrary: w) (simp_all add: sound_step)

lemma run_Nil [simp]: "run w [] = w"
  by (simp add: run_def)

lemma run_Cons [simp]: "run w (ev # evs) = run (step w ev) evs"
  by (simp add: run_def)

lemma run_append: "run w (xs @ ys) = run (run w xs) ys"
  by (simp add: run_def)

lemma sound_initMessaging:
  assumes "initMessaging (Some l) e (Some c) fresh_world = Inr w"
  shows "sound l w"
proof -
  have w: "w = emit_effect (ListenerOn l ''message-request'')
      (fresh_world\<lparr>listenerObj := Some l, emitterObj := (if e \<noteq> None then e else Some l),
         listeners := [(l, ''message-request'', False, IncomingAction c)]\<rparr>)"
    using assms by (simp add: initMessaging_def fresh_world_def Let_def)
  show ?thesis
    unfolding w sound_def inv_defs
    by (auto simp: emit_effect_def fresh_world_def calls_def waiting_def)
qed


section \<open>What a step leaves alone\<close>

lemma reply_listener_frame:
  assumes "reply_listener q mid a f m w = Inr w'"
  shows "listeners w' = listeners w \<and> set (timers w') \<subseteq> set (timers w)
    \<and> next_promise w' = next_promise w \<and> seed w' = seed w \<and> issued w' = issued w
    \<and> listenerObj w' = listenerObj w \<and> emitterObj w' = emitterObj w
    \<and> (RejectCall p v \<in> set (trace w')) = (RejectCall p v \<in> set (trace w))
    \<and> (promise w' p = promise w p \<or> promise w' p = Fulfilled m)
    \<and> (q \<noteq> p \<longrightarrow> promise w' p = promise w p \<and> calls p w' = calls p w
       \<and> (ResolveCall p v \<in> set (trace w')) = (ResolveCall p v \<in> set (trace w)))"
  using assms
  by (auto simp: reply_listener_def resolve_def settle_def emit_effect_def clearTimeout_def
      disarm_def calls_def split: if_splits sum.splits option.splits)

lemma incoming_action_frame:
  assumes "incoming_action c ev m w = Inr w'"
  shows "listeners w' = listeners w \<and> timers w' = timers w
    \<and> next_promise w' = next_promise w \<and> seed w' = seed w \<and> issued w' = issued w
    \<and> listenerObj w' = listenerObj w \<and> emitterObj w' = emitterObj w
    \<and> (RejectCall p v \<in> set (trace w')) = (RejectCall p v \<in> set (trace w))
    \<and> promise w' = promise w \<and> calls p w' = calls p w
    \<and> (ResolveCall p v \<in> set (trace w')) = (ResolveCall p v \<in> set (trace w))"
  using assms
  by (auto simp: incoming_action_def emit_effect_def calls_def split: sum.splits)

lemma listens_for_handles: "listens_for p r = handles p (snd (snd (snd r)))"
  by (cases r; cases "snd (snd (snd r))") auto

lemma invoke_frame:
  assumes "invoke h ev m w = Inr w'"
  shows "listeners w' = listeners w \<and> set (timers w') \<subseteq> set (timers w)
    \<and> next_promise w' = next_promise w \<and> seed w' = seed w \<and> issued w' = issued w
    \<and> listenerObj w' = listenerObj w \<and> emitterObj w' = emitterObj w
    \<and> (RejectCall p v \<in> set (trace w')) = (RejectCall p v \<in> set (trace w))
    \<and> (promise w' p = promise w p \<or> promise w' p = Fulfilled m)
    \<and> (\<not> handles p h \<longrightarrow> promise w' p = promise w p \<and> calls p w' = calls p w
       \<and> (ResolveCall p v \<in> set (trace w')) = (ResolveCall p v \<in> set (trace w)))"
proof (cases h)
  case (IncomingAction k)
  then show ?thesis
    using assms incoming_action_frame [of k ev m w w' p v] by simp
next
  case (ReplyListener q mid a f)
  then show ?thesis
    using assms reply_listener_frame [of q mid a f m w w' p v] by simp
qed

lemma deliver_frame:
  "set (listeners (deliver rs ev m w)) \<subseteq> set (listeners w)
   \<and> set (timers (deliver rs ev m w)) \<subseteq> set (timers w)
   \<and> next_promise (deliver rs ev m w) = next_promise w
   \<and> seed (deliver rs ev m w) = seed w \<and> issued (deliver rs ev m w) = issued w
   \<and> listenerObj (deliver rs ev m w) = listenerObj w
   \<and> emitterObj (deliver rs ev m w) = emitterObj w
   \<and> (RejectCall p v \<in> set (trace (deliver rs ev m w))) = (RejectCall p v \<in> set (trace w))
   \<and> (promise (deliver rs ev m w) p = promise w p \<or> promise (deliver rs ev m w) p = Fulfilled m)
   \<and> ((\<forall>r\<in>set rs. \<not> listens_for p r) \<longrightarrow>
        promise (deliver rs ev m w) p = promise w p \<and> calls p (deliver rs ev m w) = calls p w
        \<and> (ResolveCall p v \<in> set (trace (deliver rs ev m w))) = (ResolveCall p v \<in> set (trace w)))"
proof (induction rs arbitrary: w)
  case Nil
  then show ?case by simp
next
  case (Cons r rs)
  define w1 where "w1 = (if fst (snd (snd r)) then w\<lparr>listeners := remove1 r (listeners w)\<rparr> else w)"
  have f1: "set (listeners w1) \<subseteq> set (listeners w)" "timers w1 = timers w"
    "next_promise w1 = next_promise w" "seed w1 = seed w" "issued w1 = issued w"
    "listenerObj w1 = listenerObj w" "emitterObj w1 = emitterObj w" "trace w1 = trace w"
    "promise w1 = promise w" "calls p w1 = calls p w"
    using set_remove1_subset [of r "listeners w"] by (auto simp: w1_def calls_def)
  have step: "deliver (r # rs) ev m w =
      (case invoke (snd (snd (snd r))) ev m w1 of Inl err \<Rightarrow> emit_effect (Uncaught err) w1
       | Inr w2 \<Rightarrow> deliver rs ev m w2)"
    by (simp add: deliver.simps(2) w1_def Let_def cong: sum.case_cong)
  show ?case
  proof (cases "invoke (snd (snd (snd r))) ev m w1")
    case (Inl err)
    then show ?thesis using f1 unfolding step by (simp add: emit_effect_def calls_def)
  next
    case (Inr w2)
    note fr = invoke_frame [OF Inr, of p v]
    have "deliver (r # rs) ev m w = deliver rs ev m w2" by (simp add: step Inr)
    then show ?thesis
      using Cons.IH [of w2] fr f1 by (auto simp: listens_for_handles)
  qed
qed

lemma emit_frame:
  "set (listeners (emit ob c ev m w)) \<subseteq> set (listeners w)
   \<and> set (timers (emit ob c ev m w)) \<subseteq> set (timers w)
   \<and> next_promise (emit ob c ev m w) = next_promise w
   \<and> seed (emit ob c ev m w) = seed w \<and> issued (emit ob c ev m w) = issued w
   \<and> (RejectCall p v \<in> set (trace (emit ob c ev m w))) = (RejectCall p v \<in> set (trace w))
   \<and> (promise (emit ob c ev m w) p = promise w p \<or> promise (emit ob c ev m w) p = Fulfilled m)
   \<and> ((\<forall>r\<in>set (listeners w). listens_for p r \<longrightarrow> \<not> on_channel ob c r) \<longrightarrow>
        promise (emit ob c ev m w) p = promise w p \<and> calls p (emit ob c ev m w) = calls p w
        \<and> (ResolveCall p v \<in> set (trace (emit ob c ev m w))) = (ResolveCall p v \<in> set (trace w)))"
  unfolding emit_def
  using deliver_frame [of "filter (on_channel ob c) (listeners w)" ev m w p v] by auto

lemma fire_frame:
  "set (listeners (fire h w)) \<subseteq> set (listeners w)
   \<and> set (timers (fire h w)) \<subseteq> set (timers w)
   \<and> next_promise (fire h w) = next_promise w
   \<and> seed (fire h w) = seed w \<and> issued (fire h w) = issued w
   \<and> (ResolveCall p v \<in> set (trace (fire h w))) = (ResolveCall p v \<in> set (trace w))
   \<and> (untimed p w \<longrightarrow>
        promise (fire h w) p = promise w p \<and> calls p (fire h w) = calls p w
        \<and> (RejectCall p v \<in> set (trace (fire h w))) = (RejectCall p v \<in> set (trace w)))"
proof (cases "find (\<lambda>(h', _). h' = h) (timers w)")
  case None
  then show ?thesis by (simp add: fire_def)
next
  case (Some x)
  obtain h' t q mid a where x: "x = (h', t, TimeoutFn q mid a)"
    by (cases x) (metis timeout_fn.exhaust)
  have xin: "(h, t, TimeoutFn q mid a) \<in> set (timers w)"
    using find_handle [OF Some] by (auto simp: x)
  have "untimed p w \<Longrightarrow> q \<noteq> p" using xin by (auto simp: untimed_def)
  then show ?thesis
    by (auto simp: fire_def Some x timeout_callback_def disarm_def Let_def removeAllListeners_def
        reject_def settle_def emit_effect_def calls_def split: option.splits)
qed

lemma request_frame:
  assumes "sound l w" "p < next_promise w"
  shows "p < next_promise (snd (sendMessageRequest a d t now w))
   \<and> (\<forall>r\<in>set (listeners (snd (sendMessageRequest a d t now w))).
         listens_for p r \<longrightarrow> r \<in> set (listeners w))
   \<and> (\<forall>x\<in>set (timers (snd (sendMessageRequest a d t now w))).
         tf_promise (snd (snd x)) = p \<longrightarrow> x \<in> set (timers w))
   \<and> promise (snd (sendMessageRequest a d t now w)) p = promise w p
   \<and> calls p (snd (sendMessageRequest a d t now w)) = calls p w
   \<and> (\<forall>u. settles p u \<longrightarrow>
         (u \<in> set (trace (snd (sendMessageRequest a d t now w)))) = (u \<in> set (trace w)))"
proof -
  obtain e where lo: "listenerObj w = Some l" and eo: "emitterObj w = Some e"
    using assms by (auto simp: sound_def inv_objs_def)
  show ?thesis
    using assms(2)
    by (auto simp: sendMessageRequest_eq [OF lo eo] Let_def prepared_def once_def arm_eq
        emit_effect_def calls_def settles_cases)
qed

lemma emit_effect_fields [simp]:
  "next_promise (emit_effect e w) = next_promise w" "timers (emit_effect e w) = timers w"
  "promise (emit_effect e w) = promise w" "timer_var (emit_effect e w) = timer_var w"
  "seed (emit_effect e w) = seed w" "issued (emit_effect e w) = issued w"
  "listenerObj (emit_effect e w) = listenerObj w" "emitterObj (emit_effect e w) = emitterObj w"
  "next_handle (emit_effect e w) = next_handle w" "trace (emit_effect e w) = trace w @ [e]"
  by (simp_all add: emit_effect_def)

lemma step_frame:
  assumes "sound l w" "p < next_promise w"
  shows "p < next_promise (step w ev)
    \<and> (\<forall>r\<in>set (listeners (step w ev)). listens_for p r \<longrightarrow> r \<in> set (listeners w))
    \<and> (\<forall>x\<in>set (timers (step w ev)). tf_promise (snd (snd x)) = p \<longrightarrow> x \<in> set (timers w))"
proof (cases ev)
  case (CallInit a b c)
  then show ?thesis using assms initMessaging_sound_unchanged [OF assms(1)] by simp
next
  case (CallRequest a d t now)
  then show ?thesis using request_frame [OF assms, of a d t now] by simp
next
  case (CallOneWay a d now)
  then show ?thesis using request_frame [OF assms, of a d "TNum 0" now]
    by (simp add: sendMessageOneWay_def)
next
  case (CallReply i d e)
  then show ?thesis using assms(2)
    by (auto simp: sendMessageReply_def emit_effect_def split: option.splits evh.splits)
next
  case (Emit ob c e m)
  then show ?thesis using assms(2) emit_frame [of ob c e m w] by auto
next
  case (Fire h)
  then show ?thesis using assms(2) fire_frame [of h w] by auto
qed

lemma waiting_zero_iff: "(waiting p w = 0) = (\<forall>r\<in>set (listeners w). \<not> listens_for p r)"
  by (auto simp: waiting_def filter_empty_conv)

lemma step_keeps:
  assumes "sound l w" "p < next_promise w"
  shows "(waiting p w = 0 \<longrightarrow> waiting p (step w ev) = 0)
    \<and> (untimed p w \<longrightarrow> untimed p (step w ev))
    \<and> (on_id p mid w \<longrightarrow> on_id p mid (step w ev))"
  using step_frame [OF assms, of ev]
  unfolding waiting_zero_iff untimed_def on_id_def by blast

lemma step_quiet:
  assumes "sound l w" "p < next_promise w" "idle p w"
  shows "promise (step w ev) p = promise w p \<and> calls p (step w ev) = calls p w"
proof (cases ev)
  case (CallInit a b c)
  then show ?thesis using initMessaging_sound_unchanged [OF assms(1)] by simp
next
  case (CallRequest a d t now)
  then show ?thesis using request_frame [OF assms(1,2), of a d t now] by simp
next
  case (CallOneWay a d now)
  then show ?thesis using request_frame [OF assms(1,2), of a d "TNum 0" now]
    by (simp add: sendMessageOneWay_def)
next
  case (CallReply i d e)
  then show ?thesis
    by (auto simp: sendMessageReply_def emit_effect_def calls_def split: option.splits evh.splits)
next
  case (Emit ob c e m)
  have "\<forall>r\<in>set (listeners w). listens_for p r \<longrightarrow> \<not> on_channel ob c r"
    using assms(3) by (simp add: idle_def waiting_zero_iff)
  then show ?thesis using emit_frame [of ob c e m w p] by (simp add: Emit)
next
  case (Fire h)
  then show ?thesis using assms(3) fire_frame [of h w p] by (simp add: idle_def)
qed

lemma run_quiet:
  "sound l w \<Longrightarrow> p < next_promise w \<Longrightarrow> idle p w \<Longrightarrow>
     promise (run w evs) p = promise w p \<and> calls p (run w evs) = calls p w
     \<and> idle p (run w evs)"
proof (induction evs arbitrary: w)
  case Nil
  then show ?case by simp
next
  case (Cons ev evs)
  have "idle p (step w ev)"
    using step_keeps [OF Cons.prems(1,2), of ev] Cons.prems(3) by (simp add: idle_def)
  moreover have "p < next_promise (step w ev)"
    using step_frame [OF Cons.prems(1,2)] by simp
  ultimately show ?case
    using Cons.IH [of "step w ev"] sound_step [OF Cons.prems(1)] step_quiet [OF Cons.prems]
    by simp
qed

lemma settled_cases:
  assumes "sound l w"
  shows "calls p w \<le> 1
    \<and> (promise w p = Pending) = (calls p w = 0)
    \<and> (promise w p = Fulfilled v) = (ResolveCall p v \<in> set (trace w))
    \<and> (promise w p = Rejected (Value v)) = (RejectCall p v \<in> set (trace w))
    \<and> promise w p \<noteq> Rejected (Exception x)"
proof -
  have ip: "inv_promise w" and io: "inv_once w" using assms by (simp_all add: sound_def)
  have le: "calls p w \<le> 1" using io [unfolded inv_once_def] by (meson add_leD2)
  have some: "calls p w \<noteq> 0 \<Longrightarrow> (\<exists>u. ResolveCall p u \<in> set (trace w)) \<or> (\<exists>u. RejectCall p u \<in> set (trace w))"
    by (auto simp: calls_def filter_empty_conv settles_cases)
  have r: "\<And>u. ResolveCall p u \<in> set (trace w) \<Longrightarrow> promise w p = Fulfilled u"
    and j: "\<And>u. RejectCall p u \<in> set (trace w) \<Longrightarrow> promise w p = Rejected (Value u)"
    and z: "calls p w = 0 \<Longrightarrow> promise w p = Pending"
    using ip unfolding inv_promise_def by auto
  have nz: "\<And>u. ResolveCall p u \<in> set (trace w) \<or> RejectCall p u \<in> set (trace w) \<Longrightarrow> calls p w \<noteq> 0"
    unfolding calls_def length_0_conv filter_empty_conv
    using settles.simps(1,2) by blast
  show ?thesis
    using le some r j z nz by (cases "calls p w = 0") (fastforce+)
qed


lemmas eval_defs = run_def started_def fresh_world_def initMessaging_def sendMessageRequest_def
  sendMessageRequest_via_def conforming_def refusing_def
  sendMessageOneWay_def sendMessageReply_def Let_def emit_effect_def next_id_def new_promise_def
  executor_def is_oneWay_def is_infinite_def effective_timeout_def setTimeout_def arm_def once_def
  send_request_def fire_def disarm_def timeout_callback_def removeAllListeners_def reject_def
  resolve_def settle_def emit_def deliver.simps(2) reply_listener_def incoming_action_def
  clearTimeout_def on_channel_def request_msg_def calls_def state_after_def thrown_def

lemma started_eq: "initMessaging (Some 1) None (Some 7) fresh_world = Inr started"
  by (simp add: started_def state_after_def initMessaging_def fresh_world_def)


lemma find_distinct:
  "distinct (map fst ts) \<Longrightarrow> (h, t, f) \<in> set ts \<Longrightarrow> find (\<lambda>(h', _). h' = h) ts = Some (h, t, f)"
  by (induction ts) (auto simp: rev_image_eqI)

lemma timer_facts:
  assumes "sound l w" "(h, t, TimeoutFn p mid a) \<in> set (timers w)"
  shows "calls p w = 0 \<and> promise w p = Pending \<and> timer_var w p = Some h \<and> p < next_promise w
    \<and> on_id p mid w \<and> listenerObj w = Some l
    \<and> find (\<lambda>(h', _). h' = h) (timers w) = Some (h, t, TimeoutFn p mid a)"
proof -
  have "inv_timers w" "inv_promise w" "distinct (map fst (timers w))" "inv_objs l w"
    using assms(1) by (simp_all add: sound_def)
  then show ?thesis
    using assms(2) find_distinct [of "timers w" h t "TimeoutFn p mid a"]
    unfolding inv_timers_def inv_promise_def inv_objs_def by force
qed

lemma fire_timed_out:
  assumes "sound l w" "(h, t, TimeoutFn p mid a) \<in> set (timers w)"
  shows "promise (fire h w) p = Rejected (Value (JStr ''Timed out''))
    \<and> trace (fire h w) = trace w @ [RemoveAllListeners l mid,
          ConsoleWarn (warn_time_out mid a), RejectCall p (JStr ''Timed out'')]
    \<and> listeners (fire h w) = filter (\<lambda>r. \<not> on_channel l mid r) (listeners w)
    \<and> idle p (fire h w) \<and> calls p (fire h w) = 1 \<and> p < next_promise (fire h w)"
proof -
  note f = timer_facts [OF assms]
  have it: "inv_timers w" and il: "inv_listeners l w" using assms(1) by (simp_all add: sound_def)
  have u: "untimed p (disarm h w)" using untimed_disarm [OF it] f by simp
  have ch: "\<forall>r\<in>set (listeners w). listens_for p r \<longrightarrow> on_channel l mid r"
    using f il unfolding inv_listeners_def on_channel_def on_id_def by blast
  have "waiting p (fire h w) = 0"
    using f ch
    by (auto simp: fire_def timeout_callback_def Let_def disarm_def removeAllListeners_def
        reject_def settle_def emit_effect_def waiting_zero_iff)
  moreover have "timers (fire h w) = timers (disarm h w)"
    using f
    by (simp add: fire_def timeout_callback_def Let_def disarm_def removeAllListeners_def
        reject_def settle_def emit_effect_def)
  then have "untimed p (fire h w)" using u by (simp add: untimed_def)
  ultimately show ?thesis
    using f
    by (simp add: idle_def)
      (simp add: fire_def timeout_callback_def Let_def disarm_def removeAllListeners_def
        reject_def settle_def emit_effect_def calls_def)
qed

lemma emit_unobserved:
  "\<forall>r\<in>set (listeners w). \<not> on_channel l c r \<Longrightarrow> emit l c ev m w = w"
proof -
  assume "\<forall>r\<in>set (listeners w). \<not> on_channel l c r"
  then have "filter (on_channel l c) (listeners w) = []" by (simp add: filter_empty_conv)
  then show ?thesis by (simp add: emit_def)
qed

lemma run_frame:
  "sound l w \<Longrightarrow> p < next_promise w \<Longrightarrow>
     p < next_promise (run w evs)
     \<and> (\<forall>r\<in>set (listeners (run w evs)). listens_for p r \<longrightarrow> r \<in> set (listeners w))
     \<and> (\<forall>x\<in>set (timers (run w evs)). tf_promise (snd (snd x)) = p \<longrightarrow> x \<in> set (timers w))"
proof (induction evs arbitrary: w)
  case Nil
  then show ?case by simp
next
  case (Cons ev evs)
  note sf = step_frame [OF Cons.prems, of ev]
  have "sound l (step w ev)" using Cons.prems(1) by (rule sound_step)
  from Cons.IH [OF this] sf show ?case by (simp del: step.simps)
qed




lemma deliver_resolves:
  "sound l w \<Longrightarrow> mset rs \<subseteq># mset (listeners w) \<Longrightarrow>
   \<forall>r\<in>set rs. \<exists>q. handles q (snd (snd (snd r))) \<Longrightarrow>
   r \<in> set rs \<Longrightarrow> listens_for p r \<Longrightarrow>
   promise (deliver rs ev m w) p = Fulfilled m"
proof (induction rs arbitrary: w)
  case Nil
  then show ?case by simp
next
  case (Cons r0 rs)
  obtain ob c b q mid a f where r0: "r0 = (ob, c, b, ReplyListener q mid a f)"
    using Cons.prems(3) by (cases r0; cases "snd (snd (snd r0))") auto
  have rin: "r0 \<in> set (listeners w)"
    using set_mset_mono [OF Cons.prems(2)] by auto
  have lf: "listens_for q r0" by (simp add: r0)
  have il: "inv_listeners l w" using Cons.prems(1) by (simp add: sound_def)
  have b: "b" and qn: "q < next_promise w"
    using inv_listenersD [OF il, of ob c b "ReplyListener q mid a f" q] rin lf by (auto simp: r0)
  have var: "\<not> f \<longrightarrow> timer_var w q \<noteq> None"
    using inv_listeners_var [OF il, of ob c b q mid a] rin by (auto simp: r0)
  define w1 where "w1 = w\<lparr>listeners := remove1 r0 (listeners w)\<rparr>"
  have s1: "sound l w1"
    unfolding w1_def using Cons.prems(1) by (auto intro: sound_listeners_sub)
  have sub1: "mset rs \<subseteq># mset (listeners w1)"
    using Cons.prems(2) by (simp add: insert_subset_eq_iff w1_def)
  have "waiting q w \<noteq> 0" using rin lf by (auto simp: waiting_zero_iff)
  moreover have "waiting q w + calls q w \<le> 1"
    using Cons.prems(1) by (simp add: sound_def inv_once_def)
  ultimately have one: "waiting q w = 1" and c0: "calls q w = 0" by auto
  have "Suc (waiting q w1) = waiting q w"
    using filter_remove1_length [of r0 "listeners w" "listens_for q"] rin lf
    by (simp add: w1_def waiting_def)
  then have w0: "waiting q w1 = 0" using one by simp
  have c1: "calls q w1 = 0" "q < next_promise w1"
    using c0 qn by (auto simp: w1_def calls_def)
  define w2 where "w2 = resolve q m (case timer_var w1 q of Some h \<Rightarrow> clearTimeout h w1 | None \<Rightarrow> w1)"
  have inv: "invoke (ReplyListener q mid a f) ev m w1 = Inr w2"
    using var by (auto simp: reply_listener_def w2_def w1_def split: option.splits)
  have s2: "sound l w2" "listeners w2 = listeners w1"
    using sound_reply_listener [OF s1 w0 c1, of mid a f m w2] inv by simp_all
  have step: "deliver (r0 # rs) ev m w = deliver rs ev m w2"
    using b inv unfolding w1_def by (simp add: deliver.simps(2) r0 Let_def)
  show ?case
  proof (cases "q = p")
    case True
    have "promise w1 p = Pending"
      using s1 c1(1) True unfolding sound_def inv_promise_def by auto
    then have "promise w2 p = Fulfilled m"
      unfolding w2_def using True
      by (auto simp: resolve_def settle_def clearTimeout_def disarm_def split: option.splits)
    then show ?thesis using deliver_frame [of rs ev m w2 p] by (auto simp: step)
  next
    case False
    then have "r \<noteq> r0" using Cons.prems(5) by (auto simp: r0)
    then have "r \<in> set rs" using Cons.prems(4) by simp
    then show ?thesis
      using Cons.IH [of w2] s2 sub1 Cons.prems(3,5) by (simp add: step)
  qed
qed

lemma emit_resolves:
  assumes "sound l w" "r \<in> set (listeners w)" "listens_for p r" "on_channel ob c r"
    "c \<noteq> ''message-request''"
  shows "promise (emit ob c ev m w) p = Fulfilled m"
proof -
  have il: "inv_listeners l w" using assms(1) by (simp add: sound_def)
  have "\<forall>x\<in>set (filter (on_channel ob c) (listeners w)). \<exists>q. handles q (snd (snd (snd x)))"
  proof
    fix x assume "x \<in> set (filter (on_channel ob c) (listeners w))"
    then have x: "x \<in> set (listeners w)" "fst (snd x) = c" by (auto simp: on_channel_def)
    then have "\<forall>k. snd (snd (snd x)) \<noteq> IncomingAction k"
      using il assms(5) unfolding inv_listeners_def by blast
    then show "\<exists>q. handles q (snd (snd (snd x)))"
      by (cases "snd (snd (snd x))") auto
  qed
  then show ?thesis
    unfolding emit_def using assms
    by (intro deliver_resolves [where l = l and r = r]) simp_all
qed

lemma is_infinite_lt_zero: "is_infinite t = lt_zero t"
  by (cases t) (auto simp: is_infinite_def)


lemma message_id_not_request [simp]: "message_id s now \<noteq> ''message-request''"
  by (simp add: message_id_def)

text \<open>What a call that expects a reply leaves behind on an initialized module.\<close>

lemma request_facts:
  assumes "sound l w" "sendMessageRequest a d t now w = (p, w')" "t \<noteq> TNum 0"
    "mid = message_id (seed w) now"
  shows "sound l w' \<and> p = next_promise w \<and> p < next_promise w' \<and> calls p w' = 0
    \<and> promise w' p = Pending \<and> on_id p mid w'
    \<and> listeners w' = listeners w @ [(l, mid, True, ReplyListener p mid a (lt_zero t))]
    \<and> timers w' = timers w @
          (if lt_zero t then [] else [(next_handle w, effective_timeout t, TimeoutFn p mid a)])
    \<and> (\<exists>em. emitterObj w = Some em \<and> trace w' = trace w @
          (if lt_zero t then [] else [SetTimeout (next_handle w) (effective_timeout t)]) @
          [ListenerOnce l mid, EmitterSend em ''message-request'' (request_msg mid a d)])
    \<and> (lt_zero t \<longrightarrow> untimed p w')"
proof -
  obtain em where lo: "listenerObj w = Some l" and eo: "emitterObj w = Some em"
    using assms(1) by (auto simp: sound_def inv_objs_def)
  have s': "sound l w'"
    using sound_sendMessageRequest [OF assms(1), of a d t now] assms(2) by simp
  have p: "p = next_promise w"
    using assms(2) by (auto simp: sendMessageRequest_eq [OF lo eo] Let_def)
  have w': "w' = emit_effect (EmitterSend em ''message-request'' (request_msg mid a d))
      (once l mid (ReplyListener p mid a (lt_zero t))
        (if lt_zero t then prepared now w else arm p mid a (effective_timeout t) (prepared now w)))"
    using assms(2,3,4)
    by (auto simp: sendMessageRequest_eq [OF lo eo] Let_def is_oneWay_def is_infinite_lt_zero)
  note pr = sound_prepared [OF assms(1), of now]
  have nl: "\<forall>r\<in>set (listeners w). \<not> listens_for p r"
    using pr by (simp add: p idle_def waiting_zero_iff prepared_def)
  have ut: "untimed p w" using pr by (simp add: p idle_def untimed_def prepared_def)
  have c0: "calls p w' = 0"
    using pr by (simp add: w' p once_def arm_eq calls_def prepared_def)
  then have "promise w' p = Pending" using settled_cases [OF s', of p] by simp
  moreover have "on_id p mid w'"
    using nl by (auto simp: on_id_def w' once_def arm_eq prepared_def)
  moreover have "lt_zero t \<longrightarrow> untimed p w'"
    using ut by (auto simp: w' once_def untimed_def prepared_def)
  ultimately show ?thesis
    using s' p c0 eo by (simp add: w' once_def arm_eq prepared_def)
qed

lemma started_fields:
  "timers started = []" "next_handle started = 1" "seed started = 1" "trace started = [ListenerOn 1 ''message-request'']"
  "listeners started = [(1, ''message-request'', False, IncomingAction 7)]"
  "emitterObj started = Some 1" "listenerObj started = Some 1" "next_promise started = 0"
  by (simp_all add: eval_defs)

lemma message_id_1_5: "message_id (Suc 0) 5 = ''msg-1-5''"
  by (simp add: message_id_def dec.simps dec_int_def digit_char_def)

section \<open>Identifiers\<close>

lemma digit_char_inj: "a < 10 \<Longrightarrow> b < 10 \<Longrightarrow> digit_char a = digit_char b \<Longrightarrow> a = b"
proof -
  assume a: "a < 10" and b: "b < 10" and e: "digit_char a = digit_char b"
  have d: "distinct ''0123456789''" by simp
  have "''0123456789'' ! a = ''0123456789'' ! b" using e a b by (simp add: digit_char_def)
  then show "a = b" using nth_eq_iff_index_eq [OF d, of a b] a b by simp
qed

lemma digit_char_not_dash: "digit_char d \<noteq> CHR ''-''"
proof -
  have "d mod 10 < 10" by simp
  then have "''0123456789'' ! (d mod 10) \<in> set ''0123456789''" by (intro nth_mem) simp
  then show ?thesis unfolding digit_char_def by auto
qed

lemma dec_not_dash: "CHR ''-'' \<notin> set (dec n)"
proof (induction n rule: dec.induct)
  case (1 n)
  then show ?case
    using digit_char_not_dash [of n] digit_char_not_dash [of "n mod 10"]
    by (subst dec.simps) (auto split: if_splits)
qed

lemma dec_nonempty: "dec n \<noteq> []"
  by (subst dec.simps) simp

lemma dec_inj: "dec n = dec m \<Longrightarrow> n = m"
proof (induction n arbitrary: m rule: dec.induct)
  case (1 n)
  show ?case
  proof (cases "n < 10")
    case True
    then have n: "dec n = [digit_char n]" by (subst dec.simps) simp
    have "m < 10"
    proof (rule ccontr)
      assume "\<not> m < 10"
      then have "dec m = dec (m div 10) @ [digit_char (m mod 10)]" by (subst dec.simps) simp
      then show False using "1.prems" n dec_nonempty [of "m div 10"] by simp
    qed
    then have "dec m = [digit_char m]" by (subst dec.simps) simp
    then show ?thesis using "1.prems" n True \<open>m < 10\<close> digit_char_inj by simp
  next
    case False
    then have n: "dec n = dec (n div 10) @ [digit_char (n mod 10)]" by (subst dec.simps) simp
    have "\<not> m < 10"
    proof
      assume "m < 10"
      then have "dec m = [digit_char m]" by (subst dec.simps) simp
      then show False using "1.prems" n dec_nonempty [of "n div 10"] by simp
    qed
    then have m: "dec m = dec (m div 10) @ [digit_char (m mod 10)]" by (subst dec.simps) simp
    have "dec (n div 10) = dec (m div 10)" and "digit_char (n mod 10) = digit_char (m mod 10)"
      using "1.prems" n m by simp_all
    then have "n div 10 = m div 10" and "n mod 10 = m mod 10"
      using "1.IH" [OF False] digit_char_inj [of "n mod 10" "m mod 10"] by simp_all
    then show ?thesis by (metis div_mult_mod_eq)
  qed
qed

lemma message_id_inj: "message_id s t = message_id s' t' \<Longrightarrow> s = s'"
proof -
  assume "message_id s t = message_id s' t'"
  then have e: "dec s @ CHR ''-'' # dec_int t = dec s' @ CHR ''-'' # dec_int t'"
    by (simp add: message_id_def)
  have "takeWhile (\<lambda>c. c \<noteq> CHR ''-'') (dec s @ CHR ''-'' # dec_int t) = dec s"
    using dec_not_dash [of s] by (auto simp: takeWhile_tail takeWhile_eq_all_conv)
  moreover have "takeWhile (\<lambda>c. c \<noteq> CHR ''-'') (dec s' @ CHR ''-'' # dec_int t') = dec s'"
    using dec_not_dash [of s'] by (auto simp: takeWhile_tail takeWhile_eq_all_conv)
  ultimately have "dec s = dec s'" using e by simp
  then show ?thesis by (rule dec_inj)
qed

lemma request_ids:
  "seed (snd (sendMessageRequest a d t now w)) = js_incr (seed w)
   \<and> issued (snd (sendMessageRequest a d t now w)) = issued w @ [message_id (seed w) now]"
  by (simp add: sendMessageRequest_def sendMessageRequest_via_def conforming_def next_id_def
      new_promise_def executor_def Let_def
      send_request_def once_def arm_eq settle_def split: option.splits)

lemma step_ids:
  "(case ev of
      CallRequest a d t now \<Rightarrow>
        seed (step w ev) = js_incr (seed w) \<and> issued (step w ev) = issued w @ [message_id (seed w) now]
    | CallOneWay a d now \<Rightarrow>
        seed (step w ev) = js_incr (seed w) \<and> issued (step w ev) = issued w @ [message_id (seed w) now]
    | _ \<Rightarrow> seed (step w ev) = seed w \<and> issued (step w ev) = issued w)"
proof (cases ev)
  case (CallInit l e c)
  then show ?thesis by (auto simp: initMessaging_def Let_def split: option.splits)
next
  case (CallReply i d e)
  then show ?thesis by (auto simp: sendMessageReply_def split: option.splits evh.splits if_splits)
next
  case (Emit ob c e m)
  then show ?thesis using emit_frame [of ob c e m w] by simp
next
  case (Fire h)
  then show ?thesis using fire_frame [of h w] by simp
qed (simp_all add: request_ids sendMessageOneWay_def)

lemma stamped_next:
  assumes "stamped ts w"
    "seed w' = js_incr (seed w)" "issued w' = issued w @ [message_id (seed w) now]"
  shows "stamped (ts(length (issued w) := now)) w'"
  using assms unfolding stamped_def js_incr_def
  by (auto simp: nth_append less_Suc_eq min_def)

lemma stamped_same:
  "stamped ts w \<Longrightarrow> seed w' = seed w \<Longrightarrow> issued w' = issued w \<Longrightarrow> stamped ts w'"
  by (simp add: stamped_def)

lemma stamped_step: "stamped ts w \<Longrightarrow> \<exists>ts'. stamped ts' (step w ev)"
  using step_ids [where ev = ev and w = w]
  by (cases ev) (auto simp del: step.simps intro: stamped_next stamped_same)

lemma stamped_run: "stamped ts w \<Longrightarrow> \<exists>ts'. stamped ts' (run w evs)"
proof (induction evs arbitrary: w ts)
  case Nil
  then show ?case by auto
next
  case (Cons ev evs)
  from stamped_step [OF Cons.prems, of ev] obtain ts' where "stamped ts' (step w ev)" by blast
  from Cons.IH [OF this] show ?case by simp
qed

lemma stamped_fresh: "stamped ts fresh_world"
  by (simp add: stamped_def fresh_world_def)

lemma stamped_distinct:
  assumes "stamped ts w" "length (issued w) \<le> 2 ^ 53"
  shows "distinct (issued w)"
  unfolding distinct_conv_nth
proof (intro allI impI)
  fix i j assume i: "i < length (issued w)" and j: "j < length (issued w)" and ne: "i \<noteq> j"
  have "issued w ! i = message_id (i + 1) (ts i)" "issued w ! j = message_id (j + 1) (ts j)"
    using assms i j unfolding stamped_def by (auto simp: min_def)
  then show "issued w ! i \<noteq> issued w ! j"
    using ne message_id_inj [of "i + 1" "ts i" "j + 1" "ts j"] by auto
qed

lemma stamped_replicate:
  "stamped (\<lambda>_. now) w \<Longrightarrow>
     stamped (\<lambda>_. now) (run w (replicate n (CallOneWay a d now)))
     \<and> length (issued (run w (replicate n (CallOneWay a d now)))) = length (issued w) + n"
proof (induction n arbitrary: w)
  case 0
  then show ?case by simp
next
  case (Suc n)
  let ?w = "step w (CallOneWay a d now)"
  have ids: "seed ?w = js_incr (seed w)" "issued ?w = issued w @ [message_id (seed w) now]"
    using step_ids [where ev = "CallOneWay a d now" and w = w] by (simp_all del: step.simps)
  have "stamped ((\<lambda>_. now)(length (issued w) := now)) ?w"
    using Suc.prems ids by (rule stamped_next)
  then have "stamped (\<lambda>_. now) ?w" by (simp add: fun_upd_idem)
  from Suc.IH [OF this] show ?case by (simp add: ids del: step.simps)
qed

lemma stamped_started: "stamped ts started \<and> issued started = []"
  by (simp add: stamped_def eval_defs)

lemma ids_collide:
  assumes "2 ^ 53 < n"
  shows "\<not> distinct (issued (run started (replicate n (CallOneWay a d now))))"
proof -
  define w where "w = run started (replicate n (CallOneWay a d now))"
  have st: "stamped (\<lambda>_. now) w" and len: "length (issued w) = n"
    using stamped_replicate [of now started n a d] stamped_started by (simp_all add: w_def)
  have all: "\<And>k. k < n \<Longrightarrow> issued w ! k = message_id (min (k + 1) (2 ^ 53)) now"
    using st len unfolding stamped_def by blast
  have i: "2 ^ 53 - 1 < n" and j: "2 ^ 53 < n" using assms by simp_all
  have a: "min (2 ^ 53 - 1 + 1) (2 ^ 53) = (2::nat) ^ 53" by simp
  have b: "min (2 ^ 53 + 1) (2 ^ 53) = (2::nat) ^ 53" by simp
  have "issued w ! (2 ^ 53 - 1) = message_id (2 ^ 53) now"
    using all [OF i] unfolding a .
  moreover have "issued w ! (2 ^ 53) = message_id (2 ^ 53) now"
    using all [OF j] unfolding b .
  ultimately have e: "issued w ! (2 ^ 53 - 1) = issued w ! (2 ^ 53)" by (rule trans [OF _ sym])
  have ne: "(2::nat) ^ 53 - 1 \<noteq> 2 ^ 53" by simp
  have "\<not> distinct (issued w)"
    unfolding distinct_conv_nth len using i j ne e by blast
  then show ?thesis unfolding w_def .
qed

section \<open>Timers stay armed until the call is settled\<close>















section \<open>Outcomes of a call\<close>


















lemma one_way_via:
  assumes "listenerObj w = Some l" "emitterObj w = Some em"
  shows "sendMessageRequest_via tr a d (TNum 0) now w =
    (next_promise w,
     case tr em ''message-request'' (request_msg (message_id (seed w) now) a d) of
       None \<Rightarrow> emit_effect (EmitterSend em ''message-request''
                 (request_msg (message_id (seed w) now) a d)) (prepared now w)
     | Some err \<Rightarrow> settle (next_promise w) (Rejected (Exception err))
         (emit_effect (EmitterSend em ''message-request''
            (request_msg (message_id (seed w) now) a d)) (prepared now w)))"
  using assms
  by (simp add: sendMessageRequest_via_def next_id_def new_promise_def executor_def Let_def
      send_request_def prepared_def is_oneWay_def is_infinite_def emit_effect_def
      split: option.splits)



section \<open>The claims of the specification\<close>





text \<open>
  Claim C2, as stated, fails: the value the promise is rejected with is the constant
  string \<^verbatim>\<open>'Timed out'\<close>, the same for calls that differ in action and identifier, so it
  carries neither.
\<close>

theorem timed_out_value_counterexample:
  "promise (run started [CallRequest ''ping'' (JObj [(''n'', JNum 1)]) (TNum 50) 1000, Fire 1]) 0
     = Rejected (Value (JStr ''Timed out''))
   \<and> promise (run started [CallRequest ''pong'' JNull (TNum 50) 2000, Fire 1]) 0
     = Rejected (Value (JStr ''Timed out''))"
  by (simp add: eval_defs)

text \<open>
  Claim C2, amended. While the timer of a call with a finite timeout is still armed, its
  expiry rejects the promise of the call with the string \<^verbatim>\<open>'Timed out'\<close>; the action
  name and the identifier of the call go to \<^verbatim>\<open>console.warn\<close>, in the line
  \<^verbatim>\<open>[id] 'action' Time out\<close>, after \<^verbatim>\<open>removeAllListeners(id)\<close> and before
  \<^verbatim>\<open>reject\<close>.
\<close>

theorem timed_out_rejection:
  assumes "initMessaging (Some l) e (Some c) fresh_world = Inr w0"
    and "w = run w0 evs"
    and "sendMessageRequest a d t now w = (p, w1)"
    and "\<not> is_oneWay t" and "\<not> is_infinite t"
    and "w2 = run w1 evs'"
    and "\<not> untimed p w2"
  shows "promise (fire (next_handle w) w2) p = Rejected (Value (JStr ''Timed out''))
    \<and> trace (fire (next_handle w) w2) = trace w2 @
        [RemoveAllListeners l (message_id (seed w) now),
         ConsoleWarn (''['' @ message_id (seed w) now @ ''] '' @ quote @ a @ quote @ '' Time out''),
         RejectCall p (JStr ''Timed out'')]"
proof -
  have s: "sound l w" unfolding assms(2) using sound_run [OF sound_initMessaging [OF assms(1)]] .
  obtain em where lo: "listenerObj w = Some l" and eo: "emitterObj w = Some em"
    using s by (auto simp: sound_def inv_objs_def)
  define mid where "mid = message_id (seed w) now"
  have p: "p = next_promise w"
    and w1: "w1 = emit_effect (EmitterSend em ''message-request'' (request_msg mid a d))
        (once l mid (ReplyListener p mid a False) (arm p mid a (effective_timeout t) (prepared now w)))"
    using assms(3,4,5) by (auto simp: sendMessageRequest_eq [OF lo eo] Let_def mid_def)
  have s1: "sound l w1"
    using sound_sendMessageRequest [OF s, of a d t now] assms(3) by simp
  have u: "untimed p (prepared now w)"
    using sound_prepared [OF s, of now] by (simp add: p idle_def)
  have t1: "\<forall>x\<in>set (timers w1). tf_promise (snd (snd x)) = p \<longrightarrow>
      x = (next_handle w, effective_timeout t, TimeoutFn p mid a)"
    using u by (auto simp: w1 once_def arm_eq untimed_def prepared_def)
  have p1: "p < next_promise w1" by (simp add: w1 once_def arm_eq prepared_def p)
  have s2: "sound l w2" unfolding assms(6) using s1 by (rule sound_run)
  obtain x where x: "x \<in> set (timers w2)" "tf_promise (snd (snd x)) = p"
    using assms(7) unfolding untimed_def by auto
  then have "x \<in> set (timers w1)"
    using run_frame [OF s1 p1, of evs'] unfolding assms(6) by auto
  then have "x = (next_handle w, effective_timeout t, TimeoutFn p mid a)"
    using t1 x(2) by auto
  then have "(next_handle w, effective_timeout t, TimeoutFn p mid a) \<in> set (timers w2)"
    using x(1) by simp
  from fire_timed_out [OF s2 this] show ?thesis
    by (simp add: warn_time_out_def mid_def)
qed

theorem timed_out_rejection_witness:
  "initMessaging (Some 1) None (Some 7) fresh_world = Inr started
   \<and> fst (sendMessageRequest ''ping'' (JObj [(''n'', JNum 1)]) (TNum 50) 1000 started) = 0
   \<and> \<not> is_oneWay (TNum 50) \<and> \<not> is_infinite (TNum 50)
   \<and> \<not> untimed 0 (run started [CallRequest ''ping'' (JObj [(''n'', JNum 1)]) (TNum 50) 1000])
   \<and> trace (run started [CallRequest ''ping'' (JObj [(''n'', JNum 1)]) (TNum 50) 1000, Fire 1])
     = trace (run started [CallRequest ''ping'' (JObj [(''n'', JNum 1)]) (TNum 50) 1000]) @
        [RemoveAllListeners 1 ''msg-1-1000'',
         ConsoleWarn (''[msg-1-1000] '' @ quote @ ''ping'' @ quote @ '' Time out''),
         RejectCall 0 (JStr ''Timed out'')]"
proof -
  obtain w1 where c: "sendMessageRequest ''ping'' (JObj [(''n'', JNum 1)]) (TNum 50) 1000 started = (0, w1)"
    by (simp add: eval_defs)
  have k: "\<not> is_oneWay (TNum 50)" "\<not> is_infinite (TNum 50)"
    by (simp_all add: is_oneWay_def is_infinite_def)
  have "timers w1 = [(1, TNum 50, TimeoutFn 0 ''msg-1-1000'' ''ping'')]"
    using c by (auto simp: eval_defs message_id_def dec.simps dec_int_def digit_char_def)
  then have u: "\<not> untimed 0 (run w1 [])"
    by (simp add: untimed_def)
  have m: "message_id (seed started) 1000 = ''msg-1-1000''" "next_handle started = 1"
    by (simp_all add: eval_defs message_id_def dec.simps dec_int_def digit_char_def)
  note th = timed_out_rejection [OF started_eq run_Nil [symmetric] c k refl u]
  show ?thesis using th c k u m started_eq by simp
qed

text \<open>
  Claim C3, as stated, fails in two places. The promise of a fire-and-forget call does not
  resolve: it is pending when \<^verbatim>\<open>sendMessageOneWay\<close> returns, and still pending after
  a timer expiry and a delivery on the channel of its identifier. And a failure of the
  transport that is synchronous is signalled: when \<^verbatim>\<open>emitterObj.send\<close> throws, the
  executor throws, and the promise is rejected with the exception.
\<close>

theorem one_way_unresolved_counterexample:
  "promise (snd (sendMessageOneWay ''ping'' (JObj [(''n'', JNum 1)]) 1000 started)) 0 = Pending
   \<and> promise (run started [CallOneWay ''ping'' (JObj [(''n'', JNum 1)]) 1000, Fire 1,
        Emit 1 ''msg-1-1000'' NoEvent (JStr ''pong'')]) 0 = Pending
   \<and> promise (snd (sendMessageRequest_via (refusing (Error ''closed'')) ''ping''
        (JObj [(''n'', JNum 1)]) (TNum 0) 1000 started)) 0
       = Rejected (Exception (Error ''closed''))"
  by (simp add: eval_defs message_id_def dec.simps dec_int_def digit_char_def)

text \<open>
  Claim C3, amended. On an initialized module \<^verbatim>\<open>sendMessageRequest(action, data, 0)\<close>,
  which is what \<^verbatim>\<open>sendMessageOneWay\<close> calls, arms no timer and installs no listener; its
  one call on a collaborator is \<^verbatim>\<open>emitterObj.send('message-request', message)\<close> with
  \<^verbatim>\<open>message = {id, action, data}\<close>, \<^verbatim>\<open>id\<close> the fresh identifier. If that call returns,
  the promise is left pending and nothing is registered that could settle it: in every
  continuation it is still pending, neither \<^verbatim>\<open>resolve\<close> nor \<^verbatim>\<open>reject\<close> has been
  invoked, and the call has no listener and no timer. If that call throws, the promise is
  rejected with the exception, without an invocation of \<^verbatim>\<open>reject\<close>.
\<close>

theorem one_way_outcome:
  assumes "initMessaging (Some l) e (Some c) fresh_world = Inr w0"
    and "w = run w0 evs"
    and "sendMessageRequest_via tr a d (TNum 0) now w = (p, w')"
    and "message = JObj [(''id'', JStr (message_id (seed w) now)), (''action'', JStr a),
            (''data'', d)]"
  shows "sendMessageOneWay a d now w = sendMessageRequest_via conforming a d (TNum 0) now w
    \<and> listeners w' = listeners w \<and> timers w' = timers w
    \<and> (\<exists>em. emitterObj w = Some em
          \<and> trace w' = trace w @ [EmitterSend em ''message-request'' message]
          \<and> (tr em ''message-request'' message = None \<longrightarrow>
               sendMessageOneWay a d now w = (p, w')
               \<and> (\<forall>evs'. promise (run w' evs') p = Pending \<and> calls p (run w' evs') = 0
                     \<and> idle p (run w' evs')))
          \<and> (\<forall>err. tr em ''message-request'' message = Some err \<longrightarrow>
               promise w' p = Rejected (Exception err) \<and> calls p w' = 0))"
proof -
  have s: "sound l w" unfolding assms(2) using sound_run [OF sound_initMessaging [OF assms(1)]] .
  obtain em where lo: "listenerObj w = Some l" and eo: "emitterObj w = Some em"
    using s by (auto simp: sound_def inv_objs_def)
  have meq: "request_msg (message_id (seed w) now) a d = message"
    by (simp add: request_msg_def assms(4))
  define w1 where "w1 = emit_effect (EmitterSend em ''message-request'' message) (prepared now w)"
  note ov = one_way_via [OF lo eo, of tr a d now, unfolded meq, folded w1_def]
  have p: "p = next_promise w" using assms(3) unfolding ov by simp
  have w': "w' = (case tr em ''message-request'' message of None \<Rightarrow> w1
      | Some err \<Rightarrow> settle (next_promise w) (Rejected (Exception err)) w1)"
    using assms(3) unfolding ov by simp
  have cf: "sendMessageRequest a d (TNum 0) now w = (p, w1)"
    by (simp add: sendMessageRequest_eq [OF lo eo] Let_def is_oneWay_def meq w1_def p)
  have s1: "sound l w1"
    using sound_sendMessageRequest [OF s, of a d "TNum 0" now] cf by simp
  have i: "idle p w1" "calls p w1 = 0" "p < next_promise w1"
    using sound_prepared [OF s, of now] unfolding w1_def p by simp_all
  have pp: "promise w1 p = Pending" using settled_cases [OF s1, of p JNull TypeError] i(2) by simp
  have quiet: "\<forall>evs'. promise (run w1 evs') p = Pending \<and> calls p (run w1 evs') = 0
      \<and> idle p (run w1 evs')"
    using run_quiet [OF s1 i(3) i(1)] i(2) pp by simp
  have f1: "listeners w1 = listeners w \<and> timers w1 = timers w
      \<and> trace w1 = trace w @ [EmitterSend em ''message-request'' message]"
    by (simp add: w1_def prepared_def emit_effect_def)
  have fr: "listeners w' = listeners w \<and> timers w' = timers w
      \<and> trace w' = trace w @ [EmitterSend em ''message-request'' message]"
    using f1 by (simp add: w' settle_def split: option.splits)
  have ret: "tr em ''message-request'' message = None \<longrightarrow>
               sendMessageOneWay a d now w = (p, w')
               \<and> (\<forall>evs'. promise (run w' evs') p = Pending \<and> calls p (run w' evs') = 0
                     \<and> idle p (run w' evs'))"
    using quiet cf by (simp add: w' sendMessageOneWay_def)
  have thr: "\<forall>err. tr em ''message-request'' message = Some err \<longrightarrow>
               promise w' p = Rejected (Exception err) \<and> calls p w' = 0"
    using pp i(2) by (simp add: w' settle_def p calls_def)
  have "sendMessageOneWay a d now w = sendMessageRequest_via conforming a d (TNum 0) now w"
    by (simp add: sendMessageOneWay_def sendMessageRequest_def)
  then show ?thesis using fr eo ret thr by simp
qed

theorem one_way_outcome_witness:
  "initMessaging (Some 1) None (Some 7) fresh_world = Inr started
   \<and> fst (sendMessageRequest_via conforming ''ping'' (JObj [(''n'', JNum 1)]) (TNum 0) 1000 started) = 0
   \<and> conforming 1 ''message-request'' (JObj [(''id'', JStr ''msg-1-1000''),
        (''action'', JStr ''ping''), (''data'', JObj [(''n'', JNum 1)])]) = None
   \<and> trace (snd (sendMessageOneWay ''ping'' (JObj [(''n'', JNum 1)]) 1000 started))
       = [ListenerOn 1 ''message-request'',
          EmitterSend 1 ''message-request'' (JObj [(''id'', JStr ''msg-1-1000''),
            (''action'', JStr ''ping''), (''data'', JObj [(''n'', JNum 1)])])]
   \<and> promise (run (snd (sendMessageOneWay ''ping'' (JObj [(''n'', JNum 1)]) 1000 started))
        [Emit 1 ''msg-1-1000'' NoEvent JNull, Fire 1]) 0 = Pending
   \<and> fst (sendMessageRequest_via (refusing (Error ''closed'')) ''ping'' (JObj [(''n'', JNum 1)])
        (TNum 0) 1000 started) = 0
   \<and> refusing (Error ''closed'') 1 ''message-request'' (JObj [(''id'', JStr ''msg-1-1000''),
        (''action'', JStr ''ping''), (''data'', JObj [(''n'', JNum 1)])]) = Some (Error ''closed'')
   \<and> promise (snd (sendMessageRequest_via (refusing (Error ''closed'')) ''ping''
        (JObj [(''n'', JNum 1)]) (TNum 0) 1000 started)) 0 = Rejected (Exception (Error ''closed''))"
proof -
  let ?m = "JObj [(''id'', JStr ''msg-1-1000''), (''action'', JStr ''ping''),
      (''data'', JObj [(''n'', JNum 1)])]"
  obtain w' where c: "sendMessageRequest_via conforming ''ping'' (JObj [(''n'', JNum 1)]) (TNum 0) 1000 started = (0, w')"
    by (simp add: eval_defs)
  obtain w'' where r: "sendMessageRequest_via (refusing (Error ''closed'')) ''ping''
      (JObj [(''n'', JNum 1)]) (TNum 0) 1000 started = (0, w'')"
    by (simp add: eval_defs)
  have m: "?m = JObj [(''id'', JStr (message_id (seed started) 1000)), (''action'', JStr ''ping''),
      (''data'', JObj [(''n'', JNum 1)])]"
    by (simp add: eval_defs message_id_def dec.simps dec_int_def digit_char_def)
  have t: "trace started = [ListenerOn 1 ''message-request'']" "emitterObj started = Some 1"
    by (simp_all add: eval_defs)
  have k: "conforming 1 ''message-request'' ?m = None"
    "refusing (Error ''closed'') 1 ''message-request'' ?m = Some (Error ''closed'')"
    by (simp_all add: conforming_def refusing_def)
  note th = one_way_outcome [OF started_eq run_Nil [symmetric] c m]
  note th' = one_way_outcome [OF started_eq run_Nil [symmetric] r m]
  from th t k have ow: "sendMessageOneWay ''ping'' (JObj [(''n'', JNum 1)]) 1000 started = (0, w')"
    and tr: "trace w' = [ListenerOn 1 ''message-request'', EmitterSend 1 ''message-request'' ?m]"
    and q: "\<forall>evs'. promise (run w' evs') 0 = Pending"
    by auto
  have pe: "promise (run w' [Emit 1 ''msg-1-1000'' NoEvent JNull, Fire 1]) 0 = Pending"
    using q by blast
  from th' t k have rj: "promise w'' 0 = Rejected (Exception (Error ''closed''))"
    by auto
  show ?thesis using ow tr pe rj c r k started_eq by (simp del: run_Cons)
qed



text \<open>
  Claim C5, as stated, fails: \<^verbatim>\<open>seed\<close> is a JavaScript number, and \<^verbatim>\<open>seed++\<close> no
  longer increases it once it has reached \<open>2^53\<close>. Of \<open>2^53 + 1\<close> calls that all
  read the same clock value, the last two get the same identifier.
\<close>

theorem identifiers_collide_counterexample:
  "\<not> distinct (issued (run started (replicate (2 ^ 53 + 1) (CallOneWay ''ping'' JNull 0))))"
proof -
  have "(2::nat) ^ 53 < 2 ^ 53 + 1" by simp
  then show ?thesis by (rule ids_collide)
qed

text \<open>
  Claim C5, amended. Whatever happens to the module from the moment it is loaded, as long
  as no more than \<open>2^53\<close> identifiers have been generated they are pairwise different,
  whatever the clock readings were (the counter part alone tells them apart).
\<close>

theorem identifiers_distinct:
  "length (issued (run fresh_world evs)) \<le> 2 ^ 53 \<Longrightarrow> distinct (issued (run fresh_world evs))"
proof -
  assume len: "length (issued (run fresh_world evs)) \<le> 2 ^ 53"
  obtain ts where "stamped ts (run fresh_world evs)"
    using stamped_run [OF stamped_fresh [of "\<lambda>_. 0"], of evs] by blast
  then show ?thesis using len by (rule stamped_distinct)
qed

theorem identifiers_distinct_witness:
  "length (issued (run fresh_world [CallInit (Some 1) None (Some 7),
       CallRequest ''ping'' JNull (TNum 50) 5, CallOneWay ''ping'' JNull 5])) \<le> 2 ^ 53
   \<and> issued (run fresh_world [CallInit (Some 1) None (Some 7),
       CallRequest ''ping'' JNull (TNum 50) 5, CallOneWay ''ping'' JNull 5])
     = [''msg-1-5'', ''msg-2-5'']
   \<and> distinct (issued (run fresh_world [CallInit (Some 1) None (Some 7),
       CallRequest ''ping'' JNull (TNum 50) 5, CallOneWay ''ping'' JNull 5]))"
proof -
  let ?evs = "[CallInit (Some 1) None (Some 7),
       CallRequest ''ping'' JNull (TNum 50) 5, CallOneWay ''ping'' JNull 5]"
  have i: "issued (run fresh_world ?evs) = [''msg-1-5'', ''msg-2-5'']"
    by (simp add: eval_defs js_incr_def message_id_def dec.simps dec_int_def digit_char_def)
  then have l: "length (issued (run fresh_world ?evs)) \<le> 2 ^ 53" by simp
  from identifiers_distinct [OF l] i l show ?thesis by blast
qed

text \<open>
  Claim C6. A call that expects a reply (timeout not exactly 0) on an initialized module
  makes its calls on the collaborators in this order: \<^verbatim>\<open>setTimeout\<close> (only for a finite
  timeout), then \<^verbatim>\<open>listenerObj.once(message.id, ...)\<close>, and last
  \<^verbatim>\<open>emitterObj.send('message-request', message)\<close>. So when the call returns the
  listener is registered, the timer (if any) is armed, and a reply delivered on the
  call's channel at once fulfils the promise with the payload of the reply.
\<close>

theorem registered_before_send:
  assumes "initMessaging (Some l) e (Some c) fresh_world = Inr w0"
    and "w = run w0 evs"
    and "sendMessageRequest a d t now w = (p, w')"
    and "t \<noteq> TNum 0"
    and "mid = message_id (seed w) now"
  shows "(\<exists>em. emitterObj w = Some em \<and> trace w' = trace w @
            (if lt_zero t then [] else [SetTimeout (next_handle w) (effective_timeout t)]) @
            [ListenerOnce l mid, EmitterSend em ''message-request'' (request_msg mid a d)])
    \<and> (l, mid, True, ReplyListener p mid a (lt_zero t)) \<in> set (listeners w')
    \<and> (lt_zero t \<or> (next_handle w, effective_timeout t, TimeoutFn p mid a) \<in> set (timers w'))
    \<and> promise w' p = Pending
    \<and> promise (emit l mid ev v w') p = Fulfilled v"
proof -
  have s: "sound l w" unfolding assms(2) using sound_run [OF sound_initMessaging [OF assms(1)]] .
  note f = request_facts [OF s assms(3,4,5)]
  have s': "sound l w'" using f by blast
  have r: "(l, mid, True, ReplyListener p mid a (lt_zero t)) \<in> set (listeners w')"
    using f by simp
  have "promise (emit l mid ev v w') p = Fulfilled v"
    using emit_resolves [OF s' r, of p l mid ev v] by (simp add: on_channel_def assms(5))
  then show ?thesis using f r by auto
qed

theorem registered_before_send_witness:
  "initMessaging (Some 1) None (Some 7) fresh_world = Inr started
   \<and> TNum 1000 \<noteq> TNum 0
   \<and> trace (snd (sendMessageRequest ''ping'' (JObj [(''n'', JNum 1)]) (TNum 1000) 5 started))
       = [ListenerOn 1 ''message-request'', SetTimeout 1 (TNum 1000), ListenerOnce 1 ''msg-1-5'',
          EmitterSend 1 ''message-request'' (request_msg ''msg-1-5'' ''ping'' (JObj [(''n'', JNum 1)]))]
   \<and> promise (run started [CallRequest ''ping'' (JObj [(''n'', JNum 1)]) (TNum 1000) 5,
         Emit 1 ''msg-1-5'' NoEvent (JObj [(''pong'', JBool True)])]) 0
       = Fulfilled (JObj [(''pong'', JBool True)])"
proof -
  obtain w1 where c: "sendMessageRequest ''ping'' (JObj [(''n'', JNum 1)]) (TNum 1000) 5 started = (0, w1)"
    by (simp add: eval_defs)
  have k: "TNum 1000 \<noteq> TNum 0" by simp
  have ef: "effective_timeout (TNum 1000) = TNum 1000"
    by (simp add: effective_timeout_def is_oneWay_def is_infinite_def)
  note th = registered_before_send [OF started_eq run_Nil [symmetric] c k refl,
      of NoEvent "JObj [(''pong'', JBool True)]"]
  show ?thesis using th started_eq by (simp add: c started_fields message_id_1_5 ef)
qed

text \<open>
  Claim C7. Once the timer of a call has fired, the channel named after the call's
  identifier has no handler left on the listener: a reply delivered on it right away
  changes nothing at all (no settlement, no exception, not even a warning). And whatever
  happens later, the promise of the call stays rejected with \<^verbatim>\<open>'Timed out'\<close>, the one
  \<^verbatim>\<open>reject\<close> remains the only settlement invoked for it, and the call never has a
  listener or a timer again.
\<close>

theorem late_reply_ignored:
  assumes "initMessaging (Some l) e (Some c) fresh_world = Inr w0"
    and "w = run w0 evs"
    and "(h, t, TimeoutFn p mid a) \<in> set (timers w)"
  shows "(\<forall>r\<in>set (listeners (fire h w)). \<not> on_channel l mid r)
    \<and> emit l mid ev v (fire h w) = fire h w
    \<and> (\<forall>evs'. promise (run (fire h w) evs') p = Rejected (Value (JStr ''Timed out''))
          \<and> calls p (run (fire h w) evs') = 1 \<and> idle p (run (fire h w) evs'))"
proof -
  have s: "sound l w" unfolding assms(2) using sound_run [OF sound_initMessaging [OF assms(1)]] .
  note f = fire_timed_out [OF s assms(3)]
  have s': "sound l (fire h w)" using s by (rule sound_fire)
  have un: "\<forall>r\<in>set (listeners (fire h w)). \<not> on_channel l mid r" using f by simp
  have "\<forall>evs'. promise (run (fire h w) evs') p = Rejected (Value (JStr ''Timed out''))
      \<and> calls p (run (fire h w) evs') = 1 \<and> idle p (run (fire h w) evs')"
    using run_quiet [OF s', of p] f by simp
  then show ?thesis using un emit_unobserved [OF un] by simp
qed

theorem late_reply_ignored_witness:
  "initMessaging (Some 1) None (Some 7) fresh_world = Inr started
   \<and> (1, TNum 50, TimeoutFn 0 ''msg-1-1000'' ''ping'')
       \<in> set (timers (run started [CallRequest ''ping'' (JObj [(''n'', JNum 1)]) (TNum 50) 1000]))
   \<and> run started [CallRequest ''ping'' (JObj [(''n'', JNum 1)]) (TNum 50) 1000, Fire 1,
        Emit 1 ''msg-1-1000'' NoEvent (JObj [(''pong'', JBool True)])]
     = run started [CallRequest ''ping'' (JObj [(''n'', JNum 1)]) (TNum 50) 1000, Fire 1]
   \<and> promise (run started [CallRequest ''ping'' (JObj [(''n'', JNum 1)]) (TNum 50) 1000, Fire 1,
        Emit 1 ''msg-1-1000'' NoEvent (JObj [(''pong'', JBool True)])]) 0
     = Rejected (Value (JStr ''Timed out''))"
proof -
  let ?w = "run started [CallRequest ''ping'' (JObj [(''n'', JNum 1)]) (TNum 50) 1000]"
  have t: "(1, TNum 50, TimeoutFn 0 ''msg-1-1000'' ''ping'') \<in> set (timers ?w)"
    by (simp add: eval_defs message_id_def dec.simps dec_int_def digit_char_def)
  note th = late_reply_ignored [OF started_eq refl t, of NoEvent "JObj [(''pong'', JBool True)]"]
  from th have a: "emit 1 ''msg-1-1000'' NoEvent (JObj [(''pong'', JBool True)]) (fire 1 ?w) = fire 1 ?w"
    by blast
  from th have b: "promise (run (fire 1 ?w) []) 0 = Rejected (Value (JStr ''Timed out''))"
    by blast
  show ?thesis using a b t started_eq by simp
qed

text \<open>
  Claim C8. \<^verbatim>\<open>initMessaging\<close> throws \<open>AlreadyInitialized\<close> exactly when the module
  state is already initialized; on a state that is not, it throws
  \<open>InvalidParameters\<close> exactly when the listener or the callback is missing; and after
  a call that returned, every further call throws \<open>AlreadyInitialized\<close>. The
  exception is the outcome of the call itself (synchronous).
\<close>

theorem initMessaging_errors:
  "((thrown (initMessaging l e c w) = Some AlreadyInitialized) = initialized w)
   \<and> (\<not> initialized w \<longrightarrow>
        (thrown (initMessaging l e c w) = Some InvalidParameters) = (l = None \<or> c = None))
   \<and> (\<forall>w'. initMessaging l e c w = Inr w' \<longrightarrow>
        thrown (initMessaging l2 e2 c2 w') = Some AlreadyInitialized)"
  by (auto simp: initMessaging_def initialized_def emit_effect_def Let_def thrown_def
      AlreadyInitialized_def InvalidParameters_def split: if_splits option.splits)

theorem initMessaging_errors_witness:
  "\<not> initialized fresh_world
   \<and> thrown (initMessaging None (Some 2) (Some 7) fresh_world) = Some InvalidParameters
   \<and> initMessaging (Some 1) None (Some 7) fresh_world = Inr started
   \<and> thrown (initMessaging (Some 3) None (Some 7) started) = Some AlreadyInitialized"
proof -
  have n: "\<not> initialized fresh_world"
    by (simp add: initialized_def fresh_world_def)
  have a: "thrown (initMessaging None (Some 2) (Some 7) fresh_world) = Some InvalidParameters"
    using initMessaging_errors [of None "Some 2" "Some 7" fresh_world] n by simp
  have b: "thrown (initMessaging (Some 3) None (Some 7) started) = Some AlreadyInitialized"
    using initMessaging_errors [of "Some 1" None "Some 7" fresh_world "Some 3" None "Some 7"]
      started_eq by simp
  show ?thesis using n a b started_eq by simp
qed

text \<open>
  Claim C9. When the inbound event handle exists and exposes \<^verbatim>\<open>reply\<close>,
  \<^verbatim>\<open>sendMessageReply\<close> makes exactly one call, \<^verbatim>\<open>event.reply(messageId, data)\<close>, and
  none on the shared emitter. Otherwise (no handle, or a handle without \<^verbatim>\<open>reply\<close>:
  these are all the other cases) it makes exactly one call on the emitter of an
  initialized module, \<^verbatim>\<open>emitterObj.send(messageId, data)\<close>, with the request identifier
  as channel name. In both cases the call returns at once, changes nothing else and
  yields no value: its result is the state alone.
\<close>

theorem sendMessageReply_dispatch:
  "sendMessageReply i d (Event n True) w = Inr (w\<lparr>trace := trace w @ [EventReply n i d]\<rparr>)
   \<and> (\<forall>ev. (ev \<noteq> NoEvent \<and> has_reply ev) = (\<exists>k. ev = Event k True))
   \<and> (emitterObj w = Some em \<longrightarrow>
        sendMessageReply i d NoEvent w = Inr (w\<lparr>trace := trace w @ [EmitterSend em i d]\<rparr>)
        \<and> sendMessageReply i d (Event n False) w
            = Inr (w\<lparr>trace := trace w @ [EmitterSend em i d]\<rparr>))"
proof -
  have "(ev \<noteq> NoEvent \<and> has_reply ev) = (\<exists>k. ev = Event k True)" for ev
    by (cases ev) auto
  then show ?thesis by (simp add: sendMessageReply_def emit_effect_def)
qed

theorem sendMessageReply_dispatch_witness:
  "emitterObj started = Some 1
   \<and> trace (step started (CallReply ''msg-1-5'' (JBool True) (Event 4 True)))
       = trace started @ [EventReply 4 ''msg-1-5'' (JBool True)]
   \<and> trace (step started (CallReply ''msg-1-5'' (JBool True) NoEvent))
       = trace started @ [EmitterSend 1 ''msg-1-5'' (JBool True)]"
proof -
  have e: "emitterObj started = Some 1"
    by (simp add: started_def state_after_def initMessaging_def fresh_world_def emit_effect_def)
  show ?thesis
    using sendMessageReply_dispatch [of "''msg-1-5''" "JBool True" 4 started 1] e by simp
qed

text \<open>
  Claim C10. Whenever \<^verbatim>\<open>initMessaging\<close> throws, it throws one of its two errors, in
  the very state the call started in: no module variable has been assigned and nothing
  has been subscribed, and the module goes on from that state. A call that failed with
  \<open>InvalidParameters\<close> leaves the module not initialized, and a later call with a
  listener and a callback succeeds. On an initialized state \<open>AlreadyInitialized\<close> is
  raised whatever the arguments are, also when they are all missing.
\<close>

theorem initMessaging_failure_atomic:
  "(\<forall>err w'. initMessaging l e c w = Inl (err, w') \<longrightarrow>
        w' = w \<and> step w (CallInit l e c) = w
        \<and> (err = AlreadyInitialized \<or> err = InvalidParameters))
   \<and> (thrown (initMessaging l e c w) = Some InvalidParameters \<longrightarrow>
        \<not> initialized w \<and> (\<exists>w'. initMessaging (Some l2) e2 (Some c2) w = Inr w'))
   \<and> (initialized w \<longrightarrow>
        thrown (initMessaging l e c w) = Some AlreadyInitialized
        \<and> thrown (initMessaging None None None w) = Some AlreadyInitialized)"
  by (auto simp: initMessaging_def initialized_def emit_effect_def Let_def thrown_def
      state_after_def AlreadyInitialized_def InvalidParameters_def
      split: if_splits option.splits)

theorem initMessaging_failure_atomic_witness:
  "initMessaging None None (Some 7) fresh_world = Inl (InvalidParameters, fresh_world)
   \<and> step fresh_world (CallInit None None (Some 7)) = fresh_world
   \<and> initMessaging (Some 1) None (Some 7) fresh_world = Inr started
   \<and> initialized started
   \<and> thrown (initMessaging None None None started) = Some AlreadyInitialized"
proof -
  have a: "initMessaging None None (Some 7) fresh_world = Inl (InvalidParameters, fresh_world)"
    by (simp add: initMessaging_def fresh_world_def)
  then have t: "thrown (initMessaging None None (Some 7) fresh_world) = Some InvalidParameters"
    by (simp add: thrown_def)
  have i: "initialized started"
    by (simp add: initialized_def started_def state_after_def initMessaging_def fresh_world_def emit_effect_def)
  show ?thesis
    using initMessaging_failure_atomic [of None None "Some 7" fresh_world 1 None 7]
      initMessaging_failure_atomic [of None None None started] a i started_eq
    by simp
qed

end
